theory Spec2Isabelle
  imports Main
begin

section \<open>Distance-vector routing node (dvnode.py)\<close>

subsection \<open>Costs\<close>

text \<open>
  A cost is a Python \<open>int\<close> or \<open>math.inf\<close>. \<open>Fin k + Inf\<close> is \<open>Inf\<close>, every
  \<open>Fin k\<close> is below \<open>Inf\<close>, and \<open>Inf < Inf\<close> is false, as for Python's \<open>+\<close> and \<open><\<close>
  on these values. (The conversion of an int beyond the range of a double, which Python
  refuses when adding it to \<open>inf\<close>, is outside the model.)
\<close>

datatype cost = Fin int | Inf

instantiation cost :: "{plus, linorder}"
begin

definition plus_cost :: "cost \<Rightarrow> cost \<Rightarrow> cost" where
  "plus_cost a b =
     (case a of Inf \<Rightarrow> Inf | Fin x \<Rightarrow> (case b of Inf \<Rightarrow> Inf | Fin y \<Rightarrow> Fin (x + y)))"

definition less_eq_cost :: "cost \<Rightarrow> cost \<Rightarrow> bool" where
  "less_eq_cost a b =
     (case b of Inf \<Rightarrow> True | Fin y \<Rightarrow> (case a of Inf \<Rightarrow> False | Fin x \<Rightarrow> x \<le> y))"

definition less_cost :: "cost \<Rightarrow> cost \<Rightarrow> bool" where
  "less_cost a b =
     (case a of Inf \<Rightarrow> False | Fin x \<Rightarrow> (case b of Inf \<Rightarrow> True | Fin y \<Rightarrow> x < y))"

instance
  by standard (auto simp: less_eq_cost_def less_cost_def split: cost.splits)

end

subsection \<open>Python lists, indexing and exceptions\<close>

datatype error = IndexError

text \<open>\<open>xs[i]\<close> and \<open>xs[i] = v\<close> for an index \<open>i \<ge> 0\<close> (a loop variable or the node id).\<close>

definition list_get :: "'a list \<Rightarrow> nat \<Rightarrow> error + 'a" where
  "list_get xs i = (if i < length xs then Inr (xs ! i) else Inl IndexError)"

definition list_set :: "'a list \<Rightarrow> nat \<Rightarrow> 'a \<Rightarrow> error + 'a list" where
  "list_set xs i v = (if i < length xs then Inr (xs[i := v]) else Inl IndexError)"

text \<open>
  The position that Python's indexing gives an arbitrary int \<open>i\<close> in a list of length
  \<open>n\<close>: negative indices count from the end. Packet sources are such ints.
\<close>

definition py_index :: "nat \<Rightarrow> int \<Rightarrow> error + nat" where
  "py_index n i =
     (if 0 \<le> i \<and> i < int n then Inr (nat i)
      else if - int n \<le> i \<and> i < 0 then Inr (nat (int n + i))
      else Inl IndexError)"

subsection \<open>The state: object store, node attributes, simulator\<close>

type_synonym addr = nat

text \<open>
  Modelled from the spec: \<open>dvsim.py\<close> (\<open>from dvsim import Packet, NUM_NODES\<close>, and the
  simulator object handed to the node) is not among the sources. \<open>NUM_NODES\<close> is the
  spec's global constant \<open>N\<close>. A \<open>Packet\<close> is the spec's Advertisement
  \<open>(source, destination, vector)\<close> with the accessors \<open>get_src\<close> and
  \<open>get_dist_vector\<close>; its vector is a reference to a list object. Whether the
  constructor keeps the list it is handed or stores a copy of it is the parameter
  \<open>packet_copies\<close> (the spec calls the message an immutable snapshot).
\<close>

record dvsim =
  NUM_NODES :: nat
  packet_copies :: bool

record packet =
  src :: int
  dest :: int
  dist_vector :: addr

text \<open>
  \<open>heap\<close> and \<open>next_addr\<close> are the store of Python list objects holding costs: a row of
  the distance table and the vector of a packet are references (addresses) into it, so
  that two references to one list see each other's writes. Addresses from \<open>next_addr\<close>
  on are free. \<open>nodeid\<close>, \<open>dist_table\<close> (the list of row references) and
  \<open>predecessors\<close> are the attributes of the \<open>Node\<close>; \<open>simulator_cost\<close> is
  \<open>self.simulator.cost\<close>, which the node only reads, and \<open>link_layer\<close> lists the packets
  handed to \<open>self.simulator.to_link_layer\<close>, in order.
\<close>

record state =
  heap :: "addr \<Rightarrow> cost list"
  next_addr :: addr
  nodeid :: nat
  dist_table :: "addr list"
  predecessors :: "nat option list"
  simulator_cost :: "cost list list"
  link_layer :: "packet list"

text \<open>A new list object with contents \<open>xs\<close> (\<open>xs.copy()\<close>, a list display).\<close>

definition alloc :: "cost list \<Rightarrow> state \<Rightarrow> addr \<times> state" where
  "alloc xs s =
     (next_addr s, s\<lparr>heap := (heap s)(next_addr s := xs), next_addr := Suc (next_addr s)\<rparr>)"

subsection \<open>Statements that may raise\<close>

text \<open>
  A statement maps a state to the state it leaves and the exception it raised, if any:
  the mutations done before a raise stay done.
\<close>

type_synonym stmt = "state \<Rightarrow> error option \<times> state"

definition skip :: stmt where
  "skip s = (None, s)"

definition with_value :: "error + 'a \<Rightarrow> ('a \<Rightarrow> stmt) \<Rightarrow> stmt" where
  "with_value r k s = (case r of Inl e \<Rightarrow> (Some e, s) | Inr v \<Rightarrow> k v s)"

definition and_then :: "stmt \<Rightarrow> stmt \<Rightarrow> stmt" where
  "and_then f g s = (case f s of (None, s') \<Rightarrow> g s' | (Some e, s') \<Rightarrow> (Some e, s'))"

text \<open>\<open>for i in is: body(i)\<close>\<close>

fun for_in :: "nat list \<Rightarrow> (nat \<Rightarrow> stmt) \<Rightarrow> stmt" where
  "for_in [] body s = (None, s)"
| "for_in (i # is) body s =
     (case body i s of (None, s') \<Rightarrow> for_in is body s' | (Some e, s') \<Rightarrow> (Some e, s'))"

subsection \<open>Accessors of the node\<close>

text \<open>
  The node id and the loop variables are natural numbers: \<open>range(NUM_NODES)\<close> yields
  nothing else, and the simulator numbers its nodes from 0.
\<close>

definition get_link_cost :: "state \<Rightarrow> nat \<Rightarrow> error + cost" where
  "get_link_cost s other =
     (case list_get (simulator_cost s) (nodeid s) of
        Inl e \<Rightarrow> Inl e
      | Inr row \<Rightarrow> list_get row other)"

definition get_dist_vector :: "state \<Rightarrow> error + addr" where
  "get_dist_vector s = list_get (dist_table s) (nodeid s)"

definition get_predecessor :: "state \<Rightarrow> nat \<Rightarrow> error + nat option" where
  "get_predecessor s other = list_get (predecessors s) other"

text \<open>\<open>self.dist_table[v][dest]\<close>\<close>

definition table_entry :: "state \<Rightarrow> nat \<Rightarrow> nat \<Rightarrow> error + cost" where
  "table_entry s v d =
     (case list_get (dist_table s) v of
        Inl e \<Rightarrow> Inl e
      | Inr a \<Rightarrow> list_get (heap s a) d)"

text \<open>\<open>self.get_dist_vector()[dest]\<close>, read and assigned\<close>

definition own_entry :: "state \<Rightarrow> nat \<Rightarrow> error + cost" where
  "own_entry s d =
     (case get_dist_vector s of
        Inl e \<Rightarrow> Inl e
      | Inr a \<Rightarrow> list_get (heap s a) d)"

definition set_own_entry :: "nat \<Rightarrow> cost \<Rightarrow> stmt" where
  "set_own_entry d c s =
     with_value (get_dist_vector s) (\<lambda>a.
     with_value (list_set (heap s a) d c) (\<lambda>row s.
       (None, s\<lparr>heap := (heap s)(a := row)\<rparr>))) s"

text \<open>\<open>self.predecessors[dest] = v\<close>\<close>

definition set_predecessor :: "nat \<Rightarrow> nat \<Rightarrow> stmt" where
  "set_predecessor d v s =
     with_value (list_set (predecessors s) d (Some v)) (\<lambda>ps s.
       (None, s\<lparr>predecessors := ps\<rparr>)) s"

subsection \<open>Sending\<close>

text \<open>
  Modelled from the spec: the constructor \<open>Packet(src, dest, dist_vector)\<close> of
  \<open>dvsim.py\<close>, which is not among the sources. With \<open>packet_copies\<close> the packet holds a
  new list with the contents its argument has at that moment (the spec's immutable
  snapshot); without, it holds the list it was handed.
\<close>

definition Packet :: "dvsim \<Rightarrow> int \<Rightarrow> int \<Rightarrow> addr \<Rightarrow> state \<Rightarrow> packet \<times> state" where
  "Packet D sr de v s =
     (if packet_copies D
      then (case alloc (heap s v) s of
              (a, s') \<Rightarrow> (\<lparr>src = sr, dest = de, dist_vector = a\<rparr>, s'))
      else (\<lparr>src = sr, dest = de, dist_vector = v\<rparr>, s))"

text \<open>
  Modelled from the spec: \<open>to_link_layer\<close> is the simulator's send primitive. It takes
  the packet and returns; delivery to the addressed node is a later event.
\<close>

definition to_link_layer :: "packet \<Rightarrow> state \<Rightarrow> state" where
  "to_link_layer p s = s\<lparr>link_layer := link_layer s @ [p]\<rparr>"

text \<open>
  \<open>self.simulator.to_link_layer(Packet(self.nodeid, i, self.get_dist_vector()))\<close>
\<close>

definition send_vector :: "dvsim \<Rightarrow> nat \<Rightarrow> stmt" where
  "send_vector D i s =
     with_value (get_dist_vector s) (\<lambda>a s.
       (case Packet D (int (nodeid s)) (int i) a s of
          (p, s') \<Rightarrow> (None, to_link_layer p s'))) s"

subsection \<open>\<open>update_helper\<close>\<close>

text \<open>The body of the loop over \<open>v\<close> (lines 114 to 117).\<close>

definition relax_via :: "nat \<Rightarrow> nat \<Rightarrow> stmt" where
  "relax_via d v s =
     with_value (get_link_cost s v) (\<lambda>lc.
     with_value (table_entry s v d) (\<lambda>t.
     with_value (own_entry s d) (\<lambda>cur.
       if lc + t < cur
       then and_then (set_own_entry d (lc + t)) (set_predecessor d v)
       else skip))) s"

text \<open>The body of the loop over \<open>dest\<close> (lines 107 to 117).\<close>

definition relax_dest :: "dvsim \<Rightarrow> nat \<Rightarrow> stmt" where
  "relax_dest D d s =
     (if d = nodeid s then skip s
      else and_then (set_own_entry d Inf) (for_in [0..<NUM_NODES D] (relax_via d)) s)"

text \<open>The body of the notification loop (lines 125 and 126).\<close>

definition notify :: "dvsim \<Rightarrow> nat \<Rightarrow> stmt" where
  "notify D i s =
     (if i \<noteq> nodeid s
      then with_value (get_link_cost s i) (\<lambda>lc.
             if lc \<noteq> Inf then send_vector D i else skip) s
      else skip s)"

text \<open>
  \<open>update_helper\<close>: \<open>temp\<close> is the copy of line 104, a list nothing else refers to, kept
  here by value; then the loop over \<open>dest\<close>, the comparison of line 120 (of contents)
  with its early return, and the notification loop.
\<close>

definition update_helper :: "dvsim \<Rightarrow> stmt" where
  "update_helper D s =
     with_value (get_dist_vector s) (\<lambda>a0 s0.
       let temp = heap s0 a0 in
       and_then (for_in [0..<NUM_NODES D] (relax_dest D)) (\<lambda>s1.
         with_value (get_dist_vector s1) (\<lambda>a1.
           if temp = heap s1 a1 then skip
           else for_in [0..<NUM_NODES D] (notify D)) s1) s0) s"

subsection \<open>\<open>update\<close> and \<open>link_cost_change_handler\<close>\<close>

text \<open>
  \<open>update\<close>: \<open>self.dist_table[src]\<close> raises for a source that is no index of the table;
  the comparison of line 81 is of the contents of the two lists; line 85 puts a new list
  with the contents of the vector in the table.
\<close>

definition update :: "dvsim \<Rightarrow> packet \<Rightarrow> stmt" where
  "update D pkt s =
     (let vector = dist_vector pkt in
      with_value (py_index (length (dist_table s)) (src pkt)) (\<lambda>k s.
        if heap s (dist_table s ! k) = heap s vector then skip s
        else (case alloc (heap s vector) s of
                (a, s') \<Rightarrow> update_helper D (s'\<lparr>dist_table := (dist_table s')[k := a]\<rparr>))) s)"

text \<open>\<open>link_cost_change_handler\<close>: its body is the call of line 97.\<close>

definition link_cost_change_handler :: "dvsim \<Rightarrow> int \<Rightarrow> cost \<Rightarrow> stmt" where
  "link_cost_change_handler D which_link new_cost s = update_helper D s"

subsection \<open>\<open>__init__\<close>\<close>

text \<open>
  The state in which \<open>__init__\<close> starts: nothing allocated, nothing sent, the simulator's
  costs \<open>C\<close> in place.
\<close>

definition blank :: "nat \<Rightarrow> cost list list \<Rightarrow> state" where
  "blank nid C =
     \<lparr>heap = (\<lambda>_. []), next_addr = 0, nodeid = nid, dist_table = [],
      predecessors = [], simulator_cost = C, link_layer = []\<rparr>"

text \<open>
  Line 26: \<open>NUM_NODES\<close> new rows of \<open>NUM_NODES\<close> times \<open>inf\<close>, one list object each.
\<close>

fun new_rows :: "nat \<Rightarrow> nat \<Rightarrow> state \<Rightarrow> state" where
  "new_rows n 0 s = s"
| "new_rows n (Suc k) s =
     (case alloc (replicate n Inf) s of
        (a, s') \<Rightarrow> new_rows n k (s'\<lparr>dist_table := dist_table s' @ [a]\<rparr>))"

text \<open>The body of the loop of lines 39 to 42.\<close>

definition greet :: "dvsim \<Rightarrow> nat \<Rightarrow> stmt" where
  "greet D i s =
     (if i \<noteq> nodeid s
      then with_value (get_link_cost s i) (\<lambda>lc.
             if lc \<noteq> Inf then and_then (send_vector D i) (set_predecessor i i) else skip) s
      else skip s)"

text \<open>
  \<open>__init__\<close> for the node id \<open>nid\<close> and a simulator whose costs are \<open>C\<close>: lines 26 and
  33, then line 36 (the row of costs is read and copied before the table is indexed),
  then the loop.
\<close>

definition init :: "dvsim \<Rightarrow> nat \<Rightarrow> cost list list \<Rightarrow> error option \<times> state" where
  "init D nid C =
     (let s1 = new_rows (NUM_NODES D) (NUM_NODES D) (blank nid C);
          s2 = s1\<lparr>predecessors := replicate (NUM_NODES D) None\<rparr>
      in with_value (list_get C nid) (\<lambda>row s.
           case alloc row s of
             (a, s') \<Rightarrow>
               with_value (list_set (dist_table s') nid a) (\<lambda>tbl s.
                 for_in [0..<NUM_NODES D] (greet D) (s\<lparr>dist_table := tbl\<rparr>)) s') s2)"

section \<open>Vocabulary of the properties\<close>

subsection \<open>Reading the table\<close>

text \<open>
  The list object that is the node's own row, the contents of row \<open>v\<close>
  (\<open>self.dist_table[v]\<close>), the node's own row (\<open>get_dist_vector()\<close>), the cost of the
  direct link to \<open>v\<close> (\<open>get_link_cost(v)\<close>), and the sum
  \<open>link_cost(v) + table[v][d]\<close> that relaxation minimises. They are the values the
  accessors above return when the indices are in range.
\<close>

definition own_addr :: "state \<Rightarrow> addr" where
  "own_addr s = dist_table s ! nodeid s"

definition row :: "state \<Rightarrow> nat \<Rightarrow> cost list" where
  "row s v = heap s (dist_table s ! v)"

definition own_row :: "state \<Rightarrow> cost list" where
  "own_row s = row s (nodeid s)"

definition link_cost :: "state \<Rightarrow> nat \<Rightarrow> cost" where
  "link_cost s v = simulator_cost s ! nodeid s ! v"

definition via :: "state \<Rightarrow> nat \<Rightarrow> nat \<Rightarrow> cost" where
  "via s v d = link_cost s v + row s v ! d"

text \<open>The minimum over all nodes \<open>v\<close> of \<open>link_cost(v) + table[v][d]\<close>.\<close>

definition best :: "dvsim \<Rightarrow> state \<Rightarrow> nat \<Rightarrow> cost" where
  "best D s d = Min (set (map (\<lambda>v. via s v d) [0..<NUM_NODES D]))"

text \<open>
  A state has the shape the code relies on: the node id is a node, the table has
  \<open>NUM_NODES\<close> rows, each its own allocated list object of at least \<open>NUM_NODES\<close> entries,
  there are \<open>NUM_NODES\<close> predecessors, and the simulator holds at least \<open>NUM_NODES\<close> link
  costs for this node. (A longer row is what a longer received vector leaves; the code
  never reads beyond index \<open>NUM_NODES - 1\<close>.)
\<close>

definition well_formed :: "dvsim \<Rightarrow> state \<Rightarrow> bool" where
  "well_formed D s \<longleftrightarrow>
     nodeid s < NUM_NODES D
     \<and> length (dist_table s) = NUM_NODES D
     \<and> length (predecessors s) = NUM_NODES D
     \<and> distinct (dist_table s)
     \<and> (\<forall>a\<in>set (dist_table s). a < next_addr s \<and> NUM_NODES D \<le> length (heap s a))
     \<and> nodeid s < length (simulator_cost s)
     \<and> NUM_NODES D \<le> length (simulator_cost s ! nodeid s)"

subsection \<open>The invariants of the spec\<close>

text \<open>
  I2: every entry of the own row, other than the node's own, is the minimum of
  \<open>link_cost(v) + table[v][d]\<close> over all \<open>v\<close>, in the table as it stands.
\<close>

definition fixed_point :: "dvsim \<Rightarrow> state \<Rightarrow> bool" where
  "fixed_point D s \<longleftrightarrow>
     (\<forall>d\<in>{..<NUM_NODES D}. d \<noteq> nodeid s \<longrightarrow> own_row s ! d = best D s d)"

text \<open>
  I3: where the own row is finite, the predecessor is a node whose sum is that entry.
\<close>

definition predecessors_achieve :: "dvsim \<Rightarrow> state \<Rightarrow> bool" where
  "predecessors_achieve D s \<longleftrightarrow>
     (\<forall>d\<in>{..<NUM_NODES D}. d \<noteq> nodeid s \<longrightarrow> own_row s ! d \<noteq> Inf \<longrightarrow>
        (case predecessors s ! d of
           None \<Rightarrow> False
         | Some p \<Rightarrow> p < NUM_NODES D \<and> via s p d = own_row s ! d))"

text \<open>
  The tie-break: where the minimum is finite, the predecessor is the lowest-numbered
  other node whose sum is the minimum; every other node before it has a larger sum.
\<close>

definition first_best :: "dvsim \<Rightarrow> state \<Rightarrow> bool" where
  "first_best D s \<longleftrightarrow>
     (\<forall>d\<in>{..<NUM_NODES D}. d \<noteq> nodeid s \<longrightarrow> best D s d \<noteq> Inf \<longrightarrow>
        (case predecessors s ! d of
           None \<Rightarrow> False
         | Some p \<Rightarrow> p < NUM_NODES D \<and> p \<noteq> nodeid s \<and> via s p d = best D s d
                     \<and> (\<forall>v\<in>{..<p}. v \<noteq> nodeid s \<longrightarrow> best D s d < via s v d)))"

subsection \<open>Messages\<close>

text \<open>
  The advertisement \<open>(source, destination, vector)\<close> that a packet carries in a state:
  the vector is the present contents of the list the packet refers to.
\<close>

definition carried :: "state \<Rightarrow> packet \<Rightarrow> int \<times> int \<times> cost list" where
  "carried s p = (src p, dest p, heap s (dist_vector p))"

text \<open>The nodes the loops of lines 39 and 124 send to, in order.\<close>

definition neighbour :: "state \<Rightarrow> nat \<Rightarrow> bool" where
  "neighbour s j \<longleftrightarrow> j \<noteq> nodeid s \<and> link_cost s j \<noteq> Inf"

definition neighbours :: "dvsim \<Rightarrow> state \<Rightarrow> nat list" where
  "neighbours D s = filter (neighbour s) [0..<NUM_NODES D]"

subsection \<open>The simulator's side\<close>

text \<open>
  What the simulator does to a constructed node, one event at a time: it creates a list
  object (the vector of a packet to come), delivers a packet to \<open>update\<close>, or replaces
  its costs and calls \<open>link_cost_change_handler\<close>. An exception leaves the state as the
  node left it, and the run goes on from there.
\<close>

datatype event =
  New_list "cost list"
  | Advertisement packet
  | Link_cost_changed "cost list list" int cost

fun handle :: "dvsim \<Rightarrow> event \<Rightarrow> state \<Rightarrow> state" where
  "handle D (New_list xs) s = snd (alloc xs s)"
| "handle D (Advertisement pkt) s = snd (update D pkt s)"
| "handle D (Link_cost_changed C w c) s =
     snd (link_cost_change_handler D w c (s\<lparr>simulator_cost := C\<rparr>))"

definition run :: "dvsim \<Rightarrow> event list \<Rightarrow> state \<Rightarrow> state" where
  "run D evs s = fold (handle D) evs s"

text \<open>
  Events with the shape the spec asks for: the source of an advertisement is a node id
  and its vector has at least \<open>N\<close> entries, and new costs have a row of at least \<open>N\<close>
  entries for this node. Runs of such events from construction stay well-formed (lemma
  \<open>reachable_well_formed\<close>).
\<close>

definition valid_event :: "dvsim \<Rightarrow> state \<Rightarrow> event \<Rightarrow> bool" where
  "valid_event D s ev =
     (case ev of
        New_list xs \<Rightarrow> True
      | Advertisement pkt \<Rightarrow>
          0 \<le> src pkt \<and> src pkt < int (NUM_NODES D)
          \<and> NUM_NODES D \<le> length (heap s (dist_vector pkt))
      | Link_cost_changed C w c \<Rightarrow>
          nodeid s < length C \<and> NUM_NODES D \<le> length (C ! nodeid s))"

fun valid_run :: "dvsim \<Rightarrow> state \<Rightarrow> event list \<Rightarrow> bool" where
  "valid_run D s [] = True"
| "valid_run D s (ev # evs) = (valid_event D s ev \<and> valid_run D (handle D ev s) evs)"

text \<open>
  The input contract of \<open>update\<close> in the spec: the source of an advertisement is not the
  receiving node (under Python's indexing, neither \<open>id\<close> nor \<open>id - N\<close>).
\<close>

definition from_other :: "dvsim \<Rightarrow> nat \<Rightarrow> event \<Rightarrow> bool" where
  "from_other D nid ev =
     (case ev of Advertisement pkt \<Rightarrow> py_index (NUM_NODES D) (src pkt) \<noteq> Inr nid | _ \<Rightarrow> True)"

subsection \<open>Example networks\<close>

text \<open>
  \<open>table\<close> reads the whole table of a state by value.

  Two nodes joined by a link of cost 1: \<open>pair_node\<close> is node 0 as \<open>__init__\<close> leaves it.
  In \<open>link_down\<close> the link has gone down and the handler has run. In \<open>with_lists\<close> the
  simulator has created two lists for packets to come, of three entries (at address 4)
  and of one entry (at address 5); \<open>too_long\<close>, \<open>wrapped\<close> and \<open>too_short\<close> are the
  deliveries of an advertisement with the first list from source 1, with the first list
  from source \<open>-1\<close>, and with the second list from source 1; \<open>nobody\<close> is an
  advertisement from a source that is no node. \<open>shared_node\<close> is node 0 after
  construction where \<open>Packet\<close> keeps the list it is handed, and \<open>shared_later\<close> that
  node after the cost of the link has changed to 7.
\<close>

definition table :: "state \<Rightarrow> cost list list" where
  "table s = map (heap s) (dist_table s)"

definition two_nodes :: dvsim where
  "two_nodes = \<lparr>NUM_NODES = 2, packet_copies = True\<rparr>"

definition pair_costs :: "cost list list" where
  "pair_costs = [[Fin 0, Fin 1], [Fin 1, Fin 0]]"

definition pair_node :: state where
  "pair_node = snd (init two_nodes 0 pair_costs)"

definition link_down :: "error option \<times> state" where
  "link_down =
     link_cost_change_handler two_nodes 1 Inf
       (pair_node\<lparr>simulator_cost := [[Fin 0, Inf], [Inf, Fin 0]]\<rparr>)"

definition with_lists :: state where
  "with_lists = snd (alloc [Fin 1] (snd (alloc [Fin 1, Fin 0, Fin 9] pair_node)))"

definition too_long :: "error option \<times> state" where
  "too_long = update two_nodes \<lparr>src = 1, dest = 0, dist_vector = 4\<rparr> with_lists"

definition wrapped :: "error option \<times> state" where
  "wrapped = update two_nodes \<lparr>src = - 1, dest = 0, dist_vector = 4\<rparr> with_lists"

definition too_short :: "error option \<times> state" where
  "too_short = update two_nodes \<lparr>src = 1, dest = 0, dist_vector = 5\<rparr> with_lists"

definition nobody :: packet where
  "nobody = \<lparr>src = 2, dest = 0, dist_vector = 4\<rparr>"

definition shared_node :: state where
  "shared_node = snd (init (two_nodes\<lparr>packet_copies := False\<rparr>) 0 pair_costs)"

definition shared_later :: state where
  "shared_later =
     handle (two_nodes\<lparr>packet_copies := False\<rparr>)
       (Link_cost_changed [[Fin 0, Fin 7], [Fin 7, Fin 0]] 1 (Fin 7)) shared_node"

text \<open>
  Three nodes, seen from node 0, with link costs 1 to node 1 and 5 to node 2 (the
  three-node scenario of the spec). In \<open>heard_one\<close> node 0 has the vector of node 1 in its
  table but has not recomputed since construction, and the simulator has created the
  list of \<open>from_two\<close>, the advertisement of node 2. \<open>idle\<close> is \<open>heard_one\<close> after a
  recomputation. In \<open>silent\<close> nothing has been heard; \<open>old_news\<close> repeats the stored row
  of node 1 and \<open>new_news\<close> brings its vector. In \<open>tied\<close> the link to node 2 costs 2 and
  both neighbours have been heard: the routes to node 2 through node 1 and through node
  2 both cost 2. \<open>line_costs\<close> has no link from node 0 to node 2.
\<close>

definition three_nodes :: dvsim where
  "three_nodes = \<lparr>NUM_NODES = 3, packet_copies = True\<rparr>"

definition triangle_costs :: "cost list list" where
  "triangle_costs = [[Fin 0, Fin 1, Fin 5], [Fin 1, Fin 0, Fin 1], [Fin 5, Fin 1, Fin 0]]"

definition line_costs :: "cost list list" where
  "line_costs = [[Fin 0, Fin 1, Inf], [Fin 1, Fin 0, Fin 1], [Inf, Fin 1, Fin 0]]"

definition heard_one :: state where
  "heard_one =
     \<lparr>heap = (\<lambda>_. [])(0 := [Fin 0, Fin 1, Fin 5], 1 := [Fin 1, Fin 0, Fin 1],
                         2 := [Inf, Inf, Inf], 3 := [Fin 5, Fin 1, Fin 0]),
      next_addr = 4, nodeid = 0, dist_table = [0, 1, 2],
      predecessors = [None, Some 1, Some 2],
      simulator_cost = triangle_costs, link_layer = []\<rparr>"

definition from_two :: packet where
  "from_two = \<lparr>src = 2, dest = 0, dist_vector = 3\<rparr>"

definition idle :: state where
  "idle = snd (update_helper three_nodes heard_one)"

definition silent :: state where
  "silent =
     \<lparr>heap = (\<lambda>_. [])(0 := [Fin 0, Fin 1, Fin 5], 1 := [Inf, Inf, Inf],
                         2 := [Inf, Inf, Inf], 3 := [Fin 1, Fin 0, Fin 1],
                         4 := [Inf, Inf, Inf]),
      next_addr = 5, nodeid = 0, dist_table = [0, 1, 2],
      predecessors = [None, Some 1, Some 2],
      simulator_cost = triangle_costs, link_layer = []\<rparr>"

definition old_news :: packet where
  "old_news = \<lparr>src = 1, dest = 0, dist_vector = 4\<rparr>"

definition new_news :: packet where
  "new_news = \<lparr>src = 1, dest = 0, dist_vector = 3\<rparr>"

definition tied :: state where
  "tied =
     \<lparr>heap = (\<lambda>_. [])(0 := [Fin 0, Inf, Inf], 1 := [Fin 1, Fin 0, Fin 1],
                         2 := [Fin 2, Fin 1, Fin 0]),
      next_addr = 3, nodeid = 0, dist_table = [0, 1, 2],
      predecessors = [None, None, None],
      simulator_cost = [[Fin 0, Fin 1, Fin 2]], link_layer = []\<rparr>"

text \<open>
  A run of node 0 of the three nodes: the simulator creates the vector of node 1 (at
  address 6), delivers it, and changes the cost of the link to node 2 to 1.
\<close>

definition hears_one :: event where
  "hears_one = Advertisement \<lparr>src = 1, dest = 0, dist_vector = 6\<rparr>"

definition a_run :: "event list" where
  "a_run = [New_list [Fin 1, Fin 0, Fin 1], hears_one,
            Link_cost_changed [[Fin 0, Fin 1, Fin 1]] 2 (Fin 1)]"

definition born :: state where
  "born = snd (init three_nodes 0 triangle_costs)"

section \<open>Intermediate states and relations used in the proofs\<close>

text \<open>
  \<open>framed D s t\<close>: what every statement of \<open>update_helper\<close> leaves alone, whether it
  returns or raises. Only the own row object is written, its length and its entry for the
  node itself stay, new objects are allocated above the old ones, and packets are only
  appended (each with a new list of its own when \<open>Packet\<close> copies).
\<close>

definition is_own :: "state \<Rightarrow> addr \<Rightarrow> bool" where
  "is_own s b \<longleftrightarrow> nodeid s < length (dist_table s) \<and> b = dist_table s ! nodeid s"

definition framed :: "dvsim \<Rightarrow> state \<Rightarrow> state \<Rightarrow> bool" where
  "framed D s t \<longleftrightarrow>
     nodeid t = nodeid s \<and> dist_table t = dist_table s
     \<and> simulator_cost t = simulator_cost s
     \<and> length (predecessors t) = length (predecessors s)
     \<and> next_addr s \<le> next_addr t
     \<and> (\<forall>b<next_addr s. \<not> is_own s b \<longrightarrow> heap t b = heap s b)
     \<and> (\<forall>b<next_addr s. length (heap t b) = length (heap s b)
                            \<and> heap t b ! nodeid s = heap s b ! nodeid s)
     \<and> (\<exists>ps. link_layer t = link_layer s @ ps
           \<and> (packet_copies D \<longrightarrow>
                (\<forall>p\<in>set ps. next_addr s \<le> dist_vector p \<and> dist_vector p < next_addr t)))"

text \<open>
  \<open>sent_so_far D s js t\<close>: from \<open>s\<close>, the node has sent its own row to the nodes \<open>js\<close>, in
  this order, and done nothing else to the table.
\<close>

definition sent_so_far :: "dvsim \<Rightarrow> state \<Rightarrow> nat list \<Rightarrow> state \<Rightarrow> bool" where
  "sent_so_far D s js t \<longleftrightarrow>
     nodeid t = nodeid s \<and> dist_table t = dist_table s
     \<and> simulator_cost t = simulator_cost s
     \<and> next_addr s \<le> next_addr t
     \<and> (\<forall>b<next_addr s. heap t b = heap s b)
     \<and> (\<exists>ps. link_layer t = link_layer s @ ps
           \<and> map (carried t) ps = map (\<lambda>j. (int (nodeid s), int j, own_row s)) js
           \<and> (\<forall>p\<in>set ps. dist_vector p < next_addr t
                 \<and> (if packet_copies D then next_addr s \<le> dist_vector p
                     else dist_vector p = own_addr s)))"

text \<open>
  \<open>patch s d c p\<close>: the state \<open>s\<close> with entry \<open>d\<close> of the own row set to \<open>c\<close> and
  predecessor \<open>d\<close> set to \<open>p\<close>. \<open>improve\<close> is one turn of the loop over \<open>v\<close> on the pair
  (own entry, predecessor), and \<open>relaxed\<close> the pair that the whole loop leaves for
  destination \<open>d\<close>.
\<close>

definition patch :: "state \<Rightarrow> nat \<Rightarrow> cost \<Rightarrow> nat option \<Rightarrow> state" where
  "patch s d c p =
     s\<lparr>heap := (heap s)(own_addr s := (heap s (own_addr s))[d := c]),
       predecessors := (predecessors s)[d := p]\<rparr>"

definition improve :: "state \<Rightarrow> nat \<Rightarrow> nat \<Rightarrow> cost \<times> nat option \<Rightarrow> cost \<times> nat option" where
  "improve s d v acc =
     (case acc of (c, p) \<Rightarrow>
        let n = link_cost s v + (if v = nodeid s then c else row s v ! d)
        in if n < c then (n, Some v) else (c, p))"

definition relaxed :: "dvsim \<Rightarrow> state \<Rightarrow> nat \<Rightarrow> cost \<times> nat option" where
  "relaxed D s d = fold (improve s d) [0..<NUM_NODES D] (Inf, predecessors s ! d)"

text \<open>\<open>settled D s k t\<close>: from \<open>s\<close>, the destinations below \<open>k\<close> have been relaxed.\<close>

definition settled :: "dvsim \<Rightarrow> state \<Rightarrow> nat \<Rightarrow> state \<Rightarrow> bool" where
  "settled D s k t \<longleftrightarrow>
     nodeid t = nodeid s \<and> dist_table t = dist_table s
     \<and> simulator_cost t = simulator_cost s
     \<and> next_addr t = next_addr s \<and> link_layer t = link_layer s
     \<and> (\<forall>b. b \<noteq> own_addr s \<longrightarrow> heap t b = heap s b)
     \<and> length (own_row t) = length (own_row s)
     \<and> (\<forall>d<length (own_row s). own_row t ! d =
           (if d < k \<and> d \<noteq> nodeid s then fst (relaxed D s d) else own_row s ! d))
     \<and> length (predecessors t) = length (predecessors s)
     \<and> (\<forall>d<length (predecessors s). predecessors t ! d =
           (if d < k \<and> d \<noteq> nodeid s then snd (relaxed D s d) else predecessors s ! d))"

text \<open>The state of \<open>__init__\<close> after line 36, before its loop.\<close>

definition seeded :: "dvsim \<Rightarrow> nat \<Rightarrow> cost list list \<Rightarrow> state" where
  "seeded D nid C =
     \<lparr>heap = (\<lambda>a. if a = NUM_NODES D then C ! nid
                  else if a < NUM_NODES D then replicate (NUM_NODES D) Inf else []),
      next_addr = Suc (NUM_NODES D), nodeid = nid,
      dist_table = [0..<NUM_NODES D][nid := NUM_NODES D],
      predecessors = replicate (NUM_NODES D) None,
      simulator_cost = C, link_layer = []\<rparr>"

text \<open>The state of \<open>update\<close> after line 85, before \<open>update_helper\<close>.\<close>

definition stored :: "state \<Rightarrow> nat \<Rightarrow> addr \<Rightarrow> state" where
  "stored s k v = (snd (alloc (heap s v) s))\<lparr>dist_table := (dist_table s)[k := next_addr s]\<rparr>"

text \<open>The part of a state on which the node's distance to itself rests.\<close>

definition self_zero :: "dvsim \<Rightarrow> state \<Rightarrow> bool" where
  "self_zero D s \<longleftrightarrow>
     length (dist_table s) = NUM_NODES D \<and> nodeid s < NUM_NODES D
     \<and> own_addr s < next_addr s
     \<and> nodeid s < length (heap s (own_addr s))
     \<and> heap s (own_addr s) ! nodeid s = Fin 0"

text \<open>
  No packet handed to the link layer refers to a row of the table, and all rows and
  packet vectors are allocated objects.
\<close>

definition packets_private :: "state \<Rightarrow> bool" where
  "packets_private s \<longleftrightarrow>
     (\<forall>a\<in>set (dist_table s). a < next_addr s)
     \<and> (\<forall>p\<in>set (link_layer s). dist_vector p < next_addr s
                                  \<and> dist_vector p \<notin> set (dist_table s))"

text \<open>
  \<open>carrying s t\<close>: from \<open>s\<close>, only packets were sent, each with the contents of the own
  row of \<open>s\<close>, and no allocated object was written.
\<close>

definition carrying :: "state \<Rightarrow> state \<Rightarrow> bool" where
  "carrying s t \<longleftrightarrow>
     nodeid t = nodeid s \<and> dist_table t = dist_table s
     \<and> next_addr s \<le> next_addr t
     \<and> (\<forall>b<next_addr s. heap t b = heap s b)
     \<and> (\<exists>ps. link_layer t = link_layer s @ ps
           \<and> (\<forall>p\<in>set ps. dist_vector p < next_addr t
                            \<and> heap t (dist_vector p) = heap s (own_addr s)))"

section \<open>Lemmas\<close>

subsection \<open>Statements and loops\<close>

lemma with_value_Inr [simp]: "with_value (Inr v) k s = k v s"
  by (simp add: with_value_def)

lemma with_value_Inl [simp]: "with_value (Inl e) k s = (Some e, s)"
  by (simp add: with_value_def)

lemma skip_simp [simp]: "skip s = (None, s)"
  by (simp add: skip_def)

lemma and_then_None: "f s = (None, s') \<Longrightarrow> and_then f g s = g s'"
  by (simp add: and_then_def)

lemma and_then_Some: "f s = (Some e, s') \<Longrightarrow> and_then f g s = (Some e, s')"
  by (simp add: and_then_def)

lemma for_in_append:
  "for_in (xs @ ys) body s =
     (case for_in xs body s of (None, s') \<Rightarrow> for_in ys body s' | (Some e, s') \<Rightarrow> (Some e, s'))"
  by (induction xs arbitrary: s) (auto split: prod.splits option.splits)

lemma for_in_preserves:
  assumes step: "\<And>i t e' t'. i \<in> set xs \<Longrightarrow> P t \<Longrightarrow> body i t = (e', t') \<Longrightarrow> P t'"
  shows "P s \<Longrightarrow> for_in xs body s = (e, s') \<Longrightarrow> P s'"
  using step
proof (induction xs arbitrary: s)
  case Nil
  then show ?case by simp
next
  case (Cons i xs)
  obtain e1 s1 where b: "body i s = (e1, s1)" by (cases "body i s")
  have p1: "P s1"
    by (rule Cons.prems(3)[of i s e1 s1]) (simp_all add: Cons.prems(1) b)
  have rest: "P s'" if "for_in xs body s1 = (e, s')"
  proof (rule Cons.IH[OF p1 that])
    fix j t e' t'
    assume "j \<in> set xs" "P t" "body j t = (e', t')"
    then show "P t'" using Cons.prems(3)[of j t e' t'] by simp
  qed
  show ?case
  proof (cases e1)
    case None
    then have "for_in xs body s1 = (e, s')" using Cons.prems(2) b by simp
    then show ?thesis by (rule rest)
  next
    case (Some x)
    then have "s' = s1" using Cons.prems(2) b by simp
    then show ?thesis using p1 by simp
  qed
qed

lemma for_in_upt_rule:
  assumes "I 0 s"
    and "\<And>i t. i < n \<Longrightarrow> I i t \<Longrightarrow> \<exists>t'. body i t = (None, t') \<and> I (Suc i) t'"
  shows "\<exists>s'. for_in [0..<n] body s = (None, s') \<and> I n s'"
  using assms(2)
proof (induction n)
  case 0
  then show ?case using assms(1) by simp
next
  case (Suc n)
  then obtain s1 where s1: "for_in [0..<n] body s = (None, s1)" "I n s1"
    by (metis less_Suc_eq)
  obtain s2 where s2: "body n s1 = (None, s2)" "I (Suc n) s2"
    using Suc.prems s1(2) by blast
  show ?case using s1 s2 by (simp add: for_in_append)
qed

subsection \<open>What a call leaves alone\<close>

lemma framed_refl: "framed D s s"
  by (simp add: framed_def)

lemma framed_trans:
  assumes st: "framed D s t" and tu: "framed D t u"
  shows "framed D s u"
proof -
  have eqs: "nodeid t = nodeid s" "dist_table t = dist_table s" "next_addr s \<le> next_addr t"
    using st by (simp_all add: framed_def)
  have own: "is_own t b = is_own s b" for b
    by (simp add: is_own_def eqs)
  have a: "heap u b = heap s b" if "b < next_addr s" "\<not> is_own s b" for b
  proof -
    have "heap u b = heap t b" using tu that eqs own by (simp add: framed_def)
    also have "heap t b = heap s b" using st that by (simp add: framed_def)
    finally show ?thesis .
  qed
  have b: "length (heap u b) = length (heap s b) \<and> heap u b ! nodeid s = heap s b ! nodeid s"
    if "b < next_addr s" for b
  proof -
    have "length (heap u b) = length (heap t b) \<and> heap u b ! nodeid s = heap t b ! nodeid s"
      using tu that eqs by (simp add: framed_def)
    moreover have "length (heap t b) = length (heap s b) \<and> heap t b ! nodeid s = heap s b ! nodeid s"
      using st that by (simp add: framed_def)
    ultimately show ?thesis by simp
  qed
  obtain ps where ps: "link_layer t = link_layer s @ ps"
      "packet_copies D \<longrightarrow>
         (\<forall>p\<in>set ps. next_addr s \<le> dist_vector p \<and> dist_vector p < next_addr t)"
    using st by (auto simp: framed_def)
  obtain qs where qs: "link_layer u = link_layer t @ qs"
      "packet_copies D \<longrightarrow>
         (\<forall>p\<in>set qs. next_addr t \<le> dist_vector p \<and> dist_vector p < next_addr u)"
    using tu by (auto simp: framed_def)
  have le: "next_addr s \<le> next_addr t" "next_addr t \<le> next_addr u"
    using st tu by (simp_all add: framed_def)
  have "packet_copies D \<longrightarrow>
         (\<forall>p\<in>set (ps @ qs). next_addr s \<le> dist_vector p \<and> dist_vector p < next_addr u)"
    using ps(2) qs(2) le by fastforce
  then have c: "\<exists>rs. link_layer u = link_layer s @ rs
           \<and> (packet_copies D \<longrightarrow>
                (\<forall>p\<in>set rs. next_addr s \<le> dist_vector p \<and> dist_vector p < next_addr u))"
    using ps(1) qs(1) by (intro exI[of _ "ps @ qs"]) simp
  have d: "nodeid u = nodeid s" "dist_table u = dist_table s"
    "simulator_cost u = simulator_cost s"
    "length (predecessors u) = length (predecessors s)" "next_addr s \<le> next_addr u"
    using st tu by (simp_all add: framed_def)
  show ?thesis
    unfolding framed_def
  proof (intro conjI)
    show "\<forall>b<next_addr s. \<not> is_own s b \<longrightarrow> heap u b = heap s b"
      using a by simp
    show "\<forall>b<next_addr s. length (heap u b) = length (heap s b)
            \<and> heap u b ! nodeid s = heap s b ! nodeid s"
      using b by simp
  qed (rule d c)+
qed

lemma and_then_cases:
  assumes "and_then f g s = (e, t)"
  shows "(\<exists>s1. f s = (None, s1) \<and> g s1 = (e, t)) \<or> (\<exists>x. f s = (Some x, t) \<and> e = Some x)"
  using assms by (auto simp: and_then_def split: prod.splits option.splits)

lemma with_value_cases:
  assumes "with_value r k s = (e, t)"
  shows "(\<exists>v. r = Inr v \<and> k v s = (e, t)) \<or> (\<exists>x. r = Inl x \<and> e = Some x \<and> t = s)"
  using assms by (cases r) auto

lemma get_dist_vector_cases:
  "get_dist_vector s = Inr a \<Longrightarrow> nodeid s < length (dist_table s) \<and> a = dist_table s ! nodeid s"
  by (auto simp: get_dist_vector_def list_get_def split: if_splits)

lemma set_own_entry_framed:
  assumes "set_own_entry d c s = (e, t)" and "d \<noteq> nodeid s"
  shows "framed D s t"
proof (cases "get_dist_vector s")
  case (Inl x)
  then have "t = s" using assms(1) by (simp add: set_own_entry_def)
  then show ?thesis by (simp add: framed_refl)
next
  case (Inr a)
  note a = get_dist_vector_cases[OF Inr]
  show ?thesis
  proof (cases "d < length (heap s a)")
    case False
    then have "t = s" using assms(1) Inr by (simp add: set_own_entry_def list_set_def)
    then show ?thesis by (simp add: framed_refl)
  next
    case True
    then have t: "t = s\<lparr>heap := (heap s)(a := (heap s a)[d := c])\<rparr>"
      using assms(1) Inr by (simp add: set_own_entry_def list_set_def)
    show ?thesis
      unfolding framed_def using a assms(2) by (simp add: t is_own_def)
  qed
qed

lemma set_predecessor_framed:
  assumes "set_predecessor d v s = (e, t)"
  shows "framed D s t"
  using assms
  by (auto simp: set_predecessor_def list_set_def framed_def split: if_splits)

lemma Packet_framed:
  assumes "Packet D sr de v s = (p, t)"
  shows "framed D s (to_link_layer p t)"
  using assms
  by (auto simp: Packet_def alloc_def to_link_layer_def framed_def split: if_splits)

lemma send_vector_framed:
  assumes "send_vector D i s = (e, t)"
  shows "framed D s t"
proof (cases "get_dist_vector s")
  case (Inl x)
  then have "t = s" using assms by (simp add: send_vector_def)
  then show ?thesis by (simp add: framed_refl)
next
  case (Inr a)
  obtain p s' where p: "Packet D (int (nodeid s)) (int i) a s = (p, s')"
    by (cases "Packet D (int (nodeid s)) (int i) a s")
  then have "t = to_link_layer p s'" using assms Inr by (simp add: send_vector_def)
  then show ?thesis using Packet_framed[OF p] by simp
qed

lemma and_then_framed:
  assumes "and_then f g s = (e, t)"
    and "\<And>e1 s1. f s = (e1, s1) \<Longrightarrow> framed D s s1"
    and "\<And>s1 e2 t2. f s = (None, s1) \<Longrightarrow> g s1 = (e2, t2) \<Longrightarrow> framed D s1 t2"
  shows "framed D s t"
  using and_then_cases[OF assms(1)] assms(2,3) framed_trans by blast

lemma for_in_framed:
  assumes "for_in xs body s = (e, t)"
    and "\<And>i u e' u'. i \<in> set xs \<Longrightarrow> nodeid u = nodeid s \<Longrightarrow> body i u = (e', u') \<Longrightarrow> framed D u u'"
  shows "framed D s t"
proof (rule for_in_preserves[where P = "framed D s" and xs = xs and body = body and s = s and e = e])
  show "framed D s s" by (rule framed_refl)
  show "for_in xs body s = (e, t)" by (rule assms(1))
  fix i u e' u'
  assume i: "i \<in> set xs" and u: "framed D s u" and b: "body i u = (e', u')"
  have "nodeid u = nodeid s" using u by (simp add: framed_def)
  then have "framed D u u'" using assms(2) i b by blast
  then show "framed D s u'" using u framed_trans by blast
qed

lemma relax_via_framed:
  assumes "relax_via d v s = (e, t)" and "d \<noteq> nodeid s"
  shows "framed D s t"
proof -
  have nid: "nodeid s1 = nodeid s" if "set_own_entry d c s = (None, s1)" for c s1
    using set_own_entry_framed[OF that assms(2)] by (simp add: framed_def)
  have seq: "framed D s t" if "and_then (set_own_entry d c) (set_predecessor d v) s = (e, t)" for c
    using that
    by (rule and_then_framed)
       (auto intro: set_own_entry_framed set_predecessor_framed simp: assms(2))
  show ?thesis
    using assms(1) seq
    by (auto simp: relax_via_def framed_refl dest!: with_value_cases split: if_splits)
qed

lemma relax_dest_framed:
  assumes "relax_dest D d s = (e, t)"
  shows "framed D s t"
proof (cases "d = nodeid s")
  case True
  then show ?thesis using assms by (simp add: relax_dest_def framed_refl)
next
  case False
  then have "and_then (set_own_entry d Inf) (for_in [0..<NUM_NODES D] (relax_via d)) s = (e, t)"
    using assms by (simp add: relax_dest_def)
  then show ?thesis
  proof (rule and_then_framed)
    fix e1 s1 assume "set_own_entry d Inf s = (e1, s1)"
    then show "framed D s s1" using False by (rule set_own_entry_framed)
  next
    fix s1 e2 t2
    assume a: "set_own_entry d Inf s = (None, s1)"
      and b: "for_in [0..<NUM_NODES D] (relax_via d) s1 = (e2, t2)"
    have "nodeid s1 = nodeid s"
      using set_own_entry_framed[OF a False] by (simp add: framed_def)
    then show "framed D s1 t2"
      using b False by (auto intro!: for_in_framed[OF b] relax_via_framed)
  qed
qed

lemma notify_framed:
  assumes "notify D i s = (e, t)"
  shows "framed D s t"
  using assms
  by (auto simp: notify_def framed_refl dest!: with_value_cases
           intro: send_vector_framed split: if_splits)

lemma update_helper_framed:
  assumes "update_helper D s = (e, t)"
  shows "framed D s t"
proof (cases "get_dist_vector s")
  case (Inl x)
  then have "t = s" using assms by (simp add: update_helper_def)
  then show ?thesis by (simp add: framed_refl)
next
  case (Inr a0)
  define tail where "tail = (\<lambda>s1. with_value (get_dist_vector s1) (\<lambda>a1.
           if heap s a0 = heap s1 a1 then skip
           else for_in [0..<NUM_NODES D] (notify D)) s1)"
  have "and_then (for_in [0..<NUM_NODES D] (relax_dest D)) tail s = (e, t)"
    using assms Inr by (simp add: update_helper_def tail_def Let_def)
  then show ?thesis
  proof (rule and_then_framed)
    fix e1 s1 assume "for_in [0..<NUM_NODES D] (relax_dest D) s = (e1, s1)"
    then show "framed D s s1" by (rule for_in_framed) (rule relax_dest_framed)
  next
    fix s1 e2 t2
    assume "tail s1 = (e2, t2)"
    then have "t2 = s1 \<or> for_in [0..<NUM_NODES D] (notify D) s1 = (e2, t2)"
      unfolding tail_def by (auto dest!: with_value_cases split: if_splits)
    then show "framed D s1 t2"
      by (auto simp: framed_refl intro: for_in_framed notify_framed)
  qed
qed

subsection \<open>Accessors in a well-formed state\<close>

lemma wf_own_addr:
  assumes "well_formed D s"
  shows "own_addr s \<in> set (dist_table s)" "own_addr s < next_addr s"
    "NUM_NODES D \<le> length (heap s (own_addr s))"
  using assms by (auto simp: well_formed_def own_addr_def)

lemma wf_get_dist_vector:
  "well_formed D s \<Longrightarrow> get_dist_vector s = Inr (own_addr s)"
  by (simp add: well_formed_def get_dist_vector_def list_get_def own_addr_def)

lemma wf_get_link_cost:
  "well_formed D s \<Longrightarrow> v < NUM_NODES D \<Longrightarrow> get_link_cost s v = Inr (link_cost s v)"
  by (simp add: well_formed_def get_link_cost_def list_get_def link_cost_def)

lemma wf_row:
  assumes "well_formed D s" and "v < NUM_NODES D"
  shows "dist_table s ! v < next_addr s" "NUM_NODES D \<le> length (row s v)"
proof -
  have "dist_table s ! v \<in> set (dist_table s)"
    using assms by (simp add: well_formed_def)
  then show "dist_table s ! v < next_addr s" "NUM_NODES D \<le> length (row s v)"
    using assms(1) by (auto simp: well_formed_def row_def)
qed

lemma wf_table_entry:
  assumes "well_formed D s" and "v < NUM_NODES D" and "d < NUM_NODES D"
  shows "table_entry s v d = Inr (row s v ! d)"
proof -
  have "d < length (heap s (dist_table s ! v))"
    using wf_row(2)[OF assms(1,2)] assms(3) by (simp add: row_def)
  moreover have "v < length (dist_table s)"
    using assms by (simp add: well_formed_def)
  ultimately show ?thesis
    by (simp add: table_entry_def list_get_def row_def)
qed

lemma wf_own_entry:
  "well_formed D s \<Longrightarrow> d < NUM_NODES D \<Longrightarrow> own_entry s d = Inr (own_row s ! d)"
  using wf_own_addr(3)[of D s]
  by (simp add: own_entry_def wf_get_dist_vector list_get_def own_row_def row_def own_addr_def)

subsection \<open>The sending loops\<close>

lemma sent_so_far_start: "sent_so_far D s [] s"
  by (simp add: sent_so_far_def)

lemma send_vector_sent:
  assumes wf: "well_formed D s" and inv: "sent_so_far D s js t"
  shows "\<exists>t'. send_vector D i t = (None, t') \<and> sent_so_far D s (js @ [i]) t'
              \<and> predecessors t' = predecessors t"
proof -
  obtain ps where ps: "link_layer t = link_layer s @ ps"
      "map (carried t) ps = map (\<lambda>j. (int (nodeid s), int j, own_row s)) js"
      "\<forall>p\<in>set ps. dist_vector p < next_addr t
                 \<and> (if packet_copies D then next_addr s \<le> dist_vector p
                     else dist_vector p = own_addr s)"
    using inv unfolding sent_so_far_def by blast
  have same: "nodeid t = nodeid s" "dist_table t = dist_table s"
      "simulator_cost t = simulator_cost s" "next_addr s \<le> next_addr t"
      "\<And>b. b < next_addr s \<Longrightarrow> heap t b = heap s b"
    using inv unfolding sent_so_far_def by auto
  have own: "own_addr t = own_addr s" by (simp add: own_addr_def same)
  have gdv: "get_dist_vector t = Inr (own_addr s)"
    using wf_get_dist_vector[OF wf] by (simp add: get_dist_vector_def same)
  have heap_own: "heap t (own_addr s) = own_row s"
    using same(5)[OF wf_own_addr(2)[OF wf]] by (simp add: own_row_def row_def own_addr_def)
  have old: "map (carried u) ps = map (carried t) ps"
    if "\<And>b. b < next_addr t \<Longrightarrow> heap u b = heap t b" for u
    using ps(3) that by (auto simp: carried_def)
  show ?thesis
  proof (cases "packet_copies D")
    case True
    define p where "p = \<lparr>src = int (nodeid s), dest = int i, dist_vector = next_addr t\<rparr>"
    define t' where "t' = t\<lparr>heap := (heap t)(next_addr t := heap t (own_addr s)),
                            next_addr := Suc (next_addr t),
                            link_layer := link_layer t @ [p]\<rparr>"
    have run: "send_vector D i t = (None, t')"
      by (simp add: send_vector_def gdv Packet_def True alloc_def to_link_layer_def
            t'_def p_def same)
    have c: "carried t' p = (int (nodeid s), int i, own_row s)"
      by (simp add: carried_def t'_def p_def heap_own)
    have o: "map (carried t') ps = map (carried t) ps"
      by (rule old) (simp add: t'_def)
    have "sent_so_far D s (js @ [i]) t'"
      unfolding sent_so_far_def
    proof (intro conjI exI[of _ "ps @ [p]"])
      show "map (carried t') (ps @ [p])
            = map (\<lambda>j. (int (nodeid s), int j, own_row s)) (js @ [i])"
        using c o ps(2) by simp
      show "\<forall>q\<in>set (ps @ [p]). dist_vector q < next_addr t'
              \<and> (if packet_copies D then next_addr s \<le> dist_vector q
                  else dist_vector q = own_addr s)"
        using ps(3) same(4) True by (auto simp: t'_def p_def less_Suc_eq)
      show "\<forall>b<next_addr s. heap t' b = heap s b"
        using same(4,5) by (auto simp: t'_def)
    qed (simp_all add: t'_def same ps(1) le_SucI)
    moreover have "predecessors t' = predecessors t" by (simp add: t'_def)
    ultimately show ?thesis using run by blast
  next
    case False
    define p where "p = \<lparr>src = int (nodeid s), dest = int i, dist_vector = own_addr s\<rparr>"
    define t' where "t' = t\<lparr>link_layer := link_layer t @ [p]\<rparr>"
    have run: "send_vector D i t = (None, t')"
      by (simp add: send_vector_def gdv Packet_def False to_link_layer_def t'_def p_def same)
    have c: "carried t' p = (int (nodeid s), int i, own_row s)"
      by (simp add: carried_def t'_def p_def heap_own)
    have o: "map (carried t') ps = map (carried t) ps"
      by (rule old) (simp add: t'_def)
    have "sent_so_far D s (js @ [i]) t'"
      unfolding sent_so_far_def
    proof (intro conjI exI[of _ "ps @ [p]"])
      show "map (carried t') (ps @ [p])
            = map (\<lambda>j. (int (nodeid s), int j, own_row s)) (js @ [i])"
        using c o ps(2) by simp
      show "\<forall>q\<in>set (ps @ [p]). dist_vector q < next_addr t'
              \<and> (if packet_copies D then next_addr s \<le> dist_vector q
                  else dist_vector q = own_addr s)"
        using ps(3) same(4) False wf_own_addr(2)[OF wf] by (auto simp: t'_def p_def)
      show "\<forall>b<next_addr s. heap t' b = heap s b"
        using same(5) by (auto simp: t'_def)
    qed (simp_all add: t'_def same ps(1))
    moreover have "predecessors t' = predecessors t" by (simp add: t'_def)
    ultimately show ?thesis using run by blast
  qed
qed

lemma filter_upt_Suc:
  "filter P [0..<Suc k] = filter P [0..<k] @ (if P k then [k] else [])"
  by simp

lemma notify_step:
  assumes wf: "well_formed D s" and k: "k < NUM_NODES D"
    and inv: "sent_so_far D s (filter (neighbour s) [0..<k]) t"
  shows "\<exists>t'. notify D k t = (None, t')
              \<and> sent_so_far D s (filter (neighbour s) [0..<Suc k]) t'
              \<and> predecessors t' = predecessors t"
proof -
  have same: "nodeid t = nodeid s" "simulator_cost t = simulator_cost s"
    using inv unfolding sent_so_far_def by auto
  have glc: "get_link_cost t k = Inr (link_cost s k)"
    using wf_get_link_cost[OF wf k] by (simp add: get_link_cost_def same)
  show ?thesis
  proof (cases "neighbour s k")
    case True
    then have "notify D k t = send_vector D k t"
      by (simp add: notify_def neighbour_def same glc)
    then show ?thesis
      using send_vector_sent[OF wf inv, of k] True by (simp add: filter_upt_Suc del: upt_Suc)
  next
    case False
    then have "notify D k t = (None, t)"
      by (auto simp: notify_def neighbour_def same glc)
    then show ?thesis using inv False by (simp add: filter_upt_Suc del: upt_Suc)
  qed
qed

lemma notify_loop:
  assumes wf: "well_formed D s"
  shows "\<exists>t. for_in [0..<NUM_NODES D] (notify D) s = (None, t)
             \<and> sent_so_far D s (neighbours D s) t
             \<and> predecessors t = predecessors s"
proof -
  define I where "I = (\<lambda>k t. sent_so_far D s (filter (neighbour s) [0..<k]) t
                             \<and> predecessors t = predecessors s)"
  have "\<exists>t. for_in [0..<NUM_NODES D] (notify D) s = (None, t) \<and> I (NUM_NODES D) t"
  proof (rule for_in_upt_rule)
    show "I 0 s" by (simp add: I_def sent_so_far_start)
  next
    fix i t assume "i < NUM_NODES D" "I i t"
    then show "\<exists>t'. notify D i t = (None, t') \<and> I (Suc i) t'"
      using notify_step[OF wf, of i t] unfolding I_def by metis
  qed
  then show ?thesis by (simp add: I_def neighbours_def)
qed

subsection \<open>One destination relaxed\<close>

lemma patch_fields [simp]:
  "nodeid (patch s d c p) = nodeid s"
  "dist_table (patch s d c p) = dist_table s"
  "simulator_cost (patch s d c p) = simulator_cost s"
  "next_addr (patch s d c p) = next_addr s"
  "link_layer (patch s d c p) = link_layer s"
  "predecessors (patch s d c p) = (predecessors s)[d := p]"
  "own_addr (patch s d c p) = own_addr s"
  "link_cost (patch s d c p) v = link_cost s v"
  by (simp_all add: patch_def own_addr_def link_cost_def)

lemma patch_heap:
  "heap (patch s d c p) b = (if b = own_addr s then (heap s b)[d := c] else heap s b)"
  by (simp add: patch_def)

lemma patch_patch: "patch (patch s d c p) d c' p' = patch s d c' p'"
  by (simp add: patch_def own_addr_def)

lemma patch_same:
  "patch s d (heap s (own_addr s) ! d) (predecessors s ! d) = s"
  by (simp add: patch_def)

lemma wf_patch: "well_formed D s \<Longrightarrow> well_formed D (patch s d c p)"
  by (simp add: well_formed_def patch_heap)

lemma wf_distinct_rows:
  assumes "well_formed D s" and "v < NUM_NODES D" and "v \<noteq> nodeid s"
  shows "dist_table s ! v \<noteq> own_addr s"
  using assms by (auto simp: well_formed_def own_addr_def nth_eq_iff_index_eq)

lemma patch_row:
  assumes "well_formed D s" and "v < NUM_NODES D"
  shows "row (patch s d c p) v = (if v = nodeid s then (own_row s)[d := c] else row s v)"
  using wf_distinct_rows[OF assms]
  by (auto simp: row_def own_row_def patch_heap own_addr_def)

lemma patch_own_row: "own_row (patch s d c p) = (own_row s)[d := c]"
  by (simp add: own_row_def row_def patch_heap own_addr_def)

lemma relax_via_patch:
  assumes wf: "well_formed D s" and v: "v < NUM_NODES D" and d: "d < NUM_NODES D"
    and ne: "d \<noteq> nodeid s"
  shows "relax_via d v (patch s d c p)
         = (None, case improve s d v (c, p) of (c', p') \<Rightarrow> patch s d c' p')"
proof -
  let ?t = "patch s d c p"
  have wft: "well_formed D ?t" by (rule wf_patch[OF wf])
  have len: "d < length (own_row s)"
    using wf_own_addr(3)[OF wf] d by (simp add: own_row_def row_def own_addr_def)
  have lenh: "d < length (heap s (own_addr s))"
    using len by (simp add: own_row_def row_def own_addr_def)
  have lenp: "d < length (predecessors s)" using wf d by (simp add: well_formed_def)
  have lc: "get_link_cost ?t v = Inr (link_cost s v)"
    using wf_get_link_cost[OF wft v] by simp
  have te: "table_entry ?t v d = Inr (if v = nodeid s then c else row s v ! d)"
    using wf_table_entry[OF wft v d] len by (simp add: patch_row[OF wf v])
  have oe: "own_entry ?t d = Inr c"
    using wf_own_entry[OF wft d] len by (simp add: patch_own_row)
  have gdv: "get_dist_vector ?t = Inr (own_addr s)"
    using wf_get_dist_vector[OF wft] by simp
  have set1: "set_own_entry d n ?t = (None, patch s d n p)" for n
    using lenh by (simp add: set_own_entry_def gdv list_set_def patch_heap) (simp add: patch_def)
  have set2: "set_predecessor d v (patch s d n p) = (None, patch s d n (Some v))" for n
    using lenp by (simp add: set_predecessor_def list_set_def) (simp add: patch_def)
  have both: "and_then (set_own_entry d n) (set_predecessor d v) ?t
              = (None, patch s d n (Some v))" for n
    by (simp add: and_then_def set1 set2)
  show ?thesis
    by (simp add: relax_via_def lc te oe improve_def Let_def both)
qed

lemma relax_via_loop:
  assumes wf: "well_formed D s" and d: "d < NUM_NODES D" and ne: "d \<noteq> nodeid s"
  shows "set vs \<subseteq> {..<NUM_NODES D} \<Longrightarrow>
         for_in vs (relax_via d) (patch s d c p)
         = (None, case fold (improve s d) vs (c, p) of (c', p') \<Rightarrow> patch s d c' p')"
proof (induction vs arbitrary: c p)
  case Nil
  then show ?case by simp
next
  case (Cons v vs)
  obtain c1 p1 where i: "improve s d v (c, p) = (c1, p1)" by (cases "improve s d v (c, p)")
  have v: "v < NUM_NODES D" using Cons.prems by simp
  have "relax_via d v (patch s d c p) = (None, patch s d c1 p1)"
    using relax_via_patch[OF wf v d ne, of c p] i by simp
  moreover have "for_in vs (relax_via d) (patch s d c1 p1)
      = (None, case fold (improve s d) vs (c1, p1) of (c', p') \<Rightarrow> patch s d c' p')"
    using Cons.IH[of c1 p1] Cons.prems by simp
  ultimately show ?case by (simp add: i)
qed

lemma relax_dest_result:
  assumes wf: "well_formed D s" and d: "d < NUM_NODES D"
  shows "relax_dest D d s
         = (None, if d = nodeid s then s
                  else patch s d (fst (relaxed D s d)) (snd (relaxed D s d)))"
proof (cases "d = nodeid s")
  case True
  then show ?thesis by (simp add: relax_dest_def)
next
  case False
  have lenh: "d < length (heap s (own_addr s))"
    using wf_own_addr(3)[OF wf] d by simp
  have "set_own_entry d Inf s = (None, patch s d Inf (predecessors s ! d))"
    using lenh by (simp add: set_own_entry_def wf_get_dist_vector[OF wf] list_set_def)
                  (simp add: patch_def)
  moreover have "for_in [0..<NUM_NODES D] (relax_via d) (patch s d Inf (predecessors s ! d))
      = (None, case relaxed D s d of (c', p') \<Rightarrow> patch s d c' p')"
    unfolding relaxed_def by (rule relax_via_loop[OF wf d False]) auto
  ultimately show ?thesis
    using False by (simp add: relax_dest_def and_then_None split: prod.splits)
qed

subsection \<open>All destinations relaxed\<close>

lemma settled_start: "settled D s 0 s"
  by (simp add: settled_def)

lemma settled_same:
  assumes "settled D s k t"
  shows "nodeid t = nodeid s" "dist_table t = dist_table s"
    "simulator_cost t = simulator_cost s" "next_addr t = next_addr s"
    "link_layer t = link_layer s" "own_addr t = own_addr s"
    "link_cost t v = link_cost s v"
    "length (own_row t) = length (own_row s)"
    "length (predecessors t) = length (predecessors s)"
  using assms by (simp_all add: settled_def own_addr_def link_cost_def)

lemma settled_heap:
  "settled D s k t \<Longrightarrow> b \<noteq> own_addr s \<Longrightarrow> heap t b = heap s b"
  by (simp add: settled_def)

lemma settled_row:
  assumes "well_formed D s" and "settled D s k t" and "v < NUM_NODES D" and "v \<noteq> nodeid s"
  shows "row t v = row s v"
  using settled_heap[OF assms(2) wf_distinct_rows[OF assms(1,3,4)]]
  by (simp add: row_def settled_same(2)[OF assms(2)])

lemma settled_wf:
  assumes wf: "well_formed D s" and st: "settled D s k t"
  shows "well_formed D t"
proof -
  have "NUM_NODES D \<le> length (heap t a)" if "a \<in> set (dist_table s)" for a
  proof (cases "a = own_addr s")
    case True
    have "length (heap t (own_addr s)) = length (heap s (own_addr s))"
      using settled_same(8)[OF st]
      by (simp add: own_row_def row_def settled_same(1,2)[OF st] own_addr_def)
    then show ?thesis using wf_own_addr(3)[OF wf] True by simp
  next
    case False
    then show ?thesis using settled_heap[OF st False] wf that by (simp add: well_formed_def)
  qed
  then show ?thesis
    using wf by (simp add: well_formed_def settled_same[OF st])
qed

lemma settled_relaxed:
  assumes wf: "well_formed D s" and st: "settled D s k t" and d: "k \<le> d" "d < NUM_NODES D"
  shows "relaxed D t d = relaxed D s d"
proof -
  have imp: "improve t d v = improve s d v" if "v \<in> set [0..<NUM_NODES D]" for v
  proof (cases "v = nodeid s")
    case True
    then show ?thesis
      by (simp add: improve_def fun_eq_iff settled_same[OF st])
  next
    case False
    have "row t v = row s v" using settled_row[OF wf st _ False] that by simp
    then show ?thesis
      by (simp add: improve_def fun_eq_iff settled_same[OF st])
  qed
  have "d < length (predecessors s)" using wf d by (simp add: well_formed_def)
  then have p: "predecessors t ! d = predecessors s ! d"
    using st d by (simp add: settled_def)
  show ?thesis
    unfolding relaxed_def p
    by (rule fold_cong) (simp_all add: imp)
qed

lemma settled_step:
  assumes wf: "well_formed D s" and k: "k < NUM_NODES D" and st: "settled D s k t"
  shows "\<exists>t'. relax_dest D k t = (None, t') \<and> settled D s (Suc k) t'"
proof (cases "k = nodeid s")
  case True
  have "relax_dest D k t = (None, t)"
    using True by (simp add: relax_dest_def settled_same[OF st])
  moreover have "settled D s (Suc k) t"
    using st True unfolding settled_def by (auto simp: less_Suc_eq)
  ultimately show ?thesis by blast
next
  case False
  obtain c p where r: "relaxed D s k = (c, p)" by (cases "relaxed D s k")
  have wft: "well_formed D t" by (rule settled_wf[OF wf st])
  have "relax_dest D k t = (None, patch t k c p)"
    using relax_dest_result[OF wft k] False settled_relaxed[OF wf st _ k] r
    by (simp add: settled_same[OF st])
  moreover have "settled D s (Suc k) (patch t k c p)"
    unfolding settled_def
  proof (intro conjI allI impI)
    fix b assume "b \<noteq> own_addr s"
    then show "heap (patch t k c p) b = heap s b"
      using settled_heap[OF st] by (simp add: patch_heap settled_same[OF st])
  next
    fix d assume d: "d < length (own_row s)"
    then have "own_row t ! d = (if d < k \<and> d \<noteq> nodeid s then fst (relaxed D s d)
                                else own_row s ! d)"
      using st by (simp add: settled_def)
    then show "own_row (patch t k c p) ! d =
           (if d < Suc k \<and> d \<noteq> nodeid s then fst (relaxed D s d) else own_row s ! d)"
      using d False r
      by (auto simp: patch_own_row nth_list_update settled_same[OF st] less_Suc_eq)
  next
    fix d assume d: "d < length (predecessors s)"
    then have "predecessors t ! d = (if d < k \<and> d \<noteq> nodeid s then snd (relaxed D s d)
                                else predecessors s ! d)"
      using st by (simp add: settled_def)
    then show "predecessors (patch t k c p) ! d =
           (if d < Suc k \<and> d \<noteq> nodeid s then snd (relaxed D s d) else predecessors s ! d)"
      using d False r
      by (auto simp: nth_list_update settled_same[OF st] less_Suc_eq)
  qed (simp_all add: settled_same[OF st] patch_own_row)
  ultimately show ?thesis by blast
qed

lemma relax_loop:
  assumes wf: "well_formed D s"
  shows "\<exists>t. for_in [0..<NUM_NODES D] (relax_dest D) s = (None, t)
             \<and> settled D s (NUM_NODES D) t"
  by (rule for_in_upt_rule[where I = "settled D s"])
     (auto intro: settled_start settled_step[OF wf])

subsection \<open>Arithmetic of costs\<close>

lemma cost_add_Inf [simp]: "a + Inf = Inf" "Inf + a = (Inf :: cost)"
  by (simp_all add: plus_cost_def split: cost.splits)

lemma cost_le_Inf [simp]: "a \<le> (Inf :: cost)"
  by (simp add: less_eq_cost_def)

lemma cost_not_less_Inf [simp]: "\<not> Inf < (a :: cost)"
  by (simp add: less_cost_def)

lemma cost_self_loop:
  "Fin 0 \<le> a \<Longrightarrow> c \<le> a + (c :: cost)"
  by (auto simp: plus_cost_def less_eq_cost_def split: cost.splits)

subsection \<open>What the loop over the nodes computes\<close>

lemma relaxed_prefix:
  assumes self: "Fin 0 \<le> link_cost s (nodeid s)"
  shows "case fold (improve s d) [0..<k] (Inf, p0) of (c, p) \<Rightarrow>
           (\<forall>v<k. v \<noteq> nodeid s \<longrightarrow> c \<le> via s v d)
           \<and> (if c = Inf then p = p0
               else \<exists>v<k. v \<noteq> nodeid s \<and> p = Some v \<and> c = via s v d
                          \<and> (\<forall>u<v. u \<noteq> nodeid s \<longrightarrow> c < via s u d))"
proof (induction k)
  case 0
  then show ?case by simp
next
  case (Suc k)
  obtain c p where f: "fold (improve s d) [0..<k] (Inf, p0) = (c, p)"
    by (cases "fold (improve s d) [0..<k] (Inf, p0)")
  have low: "\<forall>v<k. v \<noteq> nodeid s \<longrightarrow> c \<le> via s v d"
    and arg: "if c = Inf then p = p0
              else \<exists>v<k. v \<noteq> nodeid s \<and> p = Some v \<and> c = via s v d
                         \<and> (\<forall>u<v. u \<noteq> nodeid s \<longrightarrow> c < via s u d)"
    using Suc.IH f by auto
  show ?case
  proof (cases "k = nodeid s")
    case True
    have "\<not> link_cost s k + c < c"
      using cost_self_loop[OF self, of c] True by (simp add: not_less)
    then have "improve s d k (c, p) = (c, p)" using True by (simp add: improve_def)
    then show ?thesis using f low arg True by (auto simp: less_Suc_eq)
  next
    case False
    show ?thesis
    proof (cases "via s k d < c")
      case True
      then have i: "improve s d k (c, p) = (via s k d, Some k)"
        using False by (simp add: improve_def via_def)
      have ne: "via s k d \<noteq> Inf" using True by auto
      have "\<forall>v<Suc k. v \<noteq> nodeid s \<longrightarrow> via s k d \<le> via s v d"
        using low True by (auto simp: less_Suc_eq)
      moreover have "\<forall>u<k. u \<noteq> nodeid s \<longrightarrow> via s k d < via s u d"
        using low True by auto
      ultimately show ?thesis using f i ne False by auto
    next
      case nl: False
      then have i: "improve s d k (c, p) = (c, p)"
        using False by (simp add: improve_def via_def)
      have "\<forall>v<Suc k. v \<noteq> nodeid s \<longrightarrow> c \<le> via s v d"
        using low nl by (auto simp: less_Suc_eq)
      moreover have "if c = Inf then p = p0
              else \<exists>v<Suc k. v \<noteq> nodeid s \<and> p = Some v \<and> c = via s v d
                         \<and> (\<forall>u<v. u \<noteq> nodeid s \<longrightarrow> c < via s u d)"
        using arg by (auto simp: less_Suc_eq)
      ultimately show ?thesis using f i by simp
    qed
  qed
qed

subsection \<open>The whole of update_helper\<close>

lemma sent_so_far_own_row:
  assumes wf: "well_formed D t" and sent: "sent_so_far D t js u"
  shows "own_row u = own_row t" "own_addr u = own_addr t" "link_cost u v = link_cost t v"
    "v < NUM_NODES D \<Longrightarrow> row u v = row t v"
proof -
  have same: "nodeid u = nodeid t" "dist_table u = dist_table t"
      "simulator_cost u = simulator_cost t"
      "\<And>b. b < next_addr t \<Longrightarrow> heap u b = heap t b"
    using sent unfolding sent_so_far_def by auto
  show "own_addr u = own_addr t" "link_cost u v = link_cost t v"
    by (simp_all add: own_addr_def link_cost_def same)
  show r: "row u v = row t v" if "v < NUM_NODES D" for v
    using same(4)[OF wf_row(1)[OF wf that]] by (simp add: row_def same)
  show "own_row u = own_row t"
    using r[of "nodeid t"] wf by (simp add: own_row_def same well_formed_def)
qed

lemma sent_so_far_wf:
  assumes wf: "well_formed D t" and sent: "sent_so_far D t js u"
    and p: "length (predecessors u) = length (predecessors t)"
  shows "well_formed D u"
proof -
  have same: "nodeid u = nodeid t" "dist_table u = dist_table t"
      "simulator_cost u = simulator_cost t" "next_addr t \<le> next_addr u"
      "\<And>b. b < next_addr t \<Longrightarrow> heap u b = heap t b"
    using sent unfolding sent_so_far_def by auto
  have "a < next_addr u \<and> NUM_NODES D \<le> length (heap u a)" if "a \<in> set (dist_table t)" for a
  proof -
    have "a < next_addr t" "NUM_NODES D \<le> length (heap t a)"
      using wf that by (auto simp: well_formed_def)
    then show ?thesis using same(4) same(5)[of a] by simp
  qed
  then show ?thesis using wf p by (simp add: well_formed_def same)
qed

lemma update_helper_result:
  assumes wf: "well_formed D s"
  shows "\<exists>t u. settled D s (NUM_NODES D) t \<and> update_helper D s = (None, u)
               \<and> (if own_row t = own_row s then u = t
                   else sent_so_far D t (neighbours D t) u
                        \<and> predecessors u = predecessors t)"
proof -
  obtain t where t: "for_in [0..<NUM_NODES D] (relax_dest D) s = (None, t)"
      "settled D s (NUM_NODES D) t"
    using relax_loop[OF wf] by blast
  have wft: "well_formed D t" by (rule settled_wf[OF wf t(2)])
  have temp: "heap s (own_addr s) = own_row s" "heap t (own_addr t) = own_row t"
    by (simp_all add: own_row_def row_def own_addr_def)
  define tail where "tail = (\<lambda>s1. with_value (get_dist_vector s1) (\<lambda>a1.
           if heap s (own_addr s) = heap s1 a1 then skip
           else for_in [0..<NUM_NODES D] (notify D)) s1)"
  have uh: "update_helper D s = tail t"
    by (simp add: update_helper_def wf_get_dist_vector[OF wf] Let_def
          and_then_def t(1) tail_def)
  show ?thesis
  proof (cases "own_row t = own_row s")
    case True
    then have "tail t = (None, t)"
      by (simp add: tail_def wf_get_dist_vector[OF wft] temp)
    then show ?thesis using t(2) True uh by auto
  next
    case False
    then have "tail t = for_in [0..<NUM_NODES D] (notify D) t"
      by (auto simp: tail_def wf_get_dist_vector[OF wft] temp)
    then show ?thesis using notify_loop[OF wft] t(2) False uh by auto
  qed
qed

lemma settled_neighbours:
  "settled D s k t \<Longrightarrow> neighbours D t = neighbours D s"
  by (simp add: neighbours_def neighbour_def settled_same cong: filter_cong)

lemma state_only_predecessors:
  assumes "settled D s k t" and "own_row t = own_row s"
  shows "t = s\<lparr>predecessors := predecessors t\<rparr>"
proof -
  have "heap t b = heap s b" for b
  proof (cases "b = own_addr s")
    case True
    then show ?thesis
      using assms(2) settled_same(1,2)[OF assms(1)]
      by (simp add: own_row_def row_def own_addr_def)
  next
    case False
    then show ?thesis by (rule settled_heap[OF assms(1)])
  qed
  then have "heap t = heap s" by (rule ext)
  then show ?thesis
    by (simp add: settled_same[OF assms(1)])
qed

lemma update_helper_relaxed:
  assumes wf: "well_formed D s"
  shows "\<exists>u. update_helper D s = (None, u) \<and> well_formed D u \<and> nodeid u = nodeid s
             \<and> (\<forall>v. link_cost u v = link_cost s v)
             \<and> (\<forall>v<NUM_NODES D. v \<noteq> nodeid s \<longrightarrow> row u v = row s v)
             \<and> (\<forall>d<NUM_NODES D. d \<noteq> nodeid s \<longrightarrow>
                   own_row u ! d = fst (relaxed D s d)
                   \<and> predecessors u ! d = snd (relaxed D s d))"
proof -
  obtain t u where t: "settled D s (NUM_NODES D) t" and u: "update_helper D s = (None, u)"
    and c: "if own_row t = own_row s then u = t
            else sent_so_far D t (neighbours D t) u \<and> predecessors u = predecessors t"
    using update_helper_result[OF wf] by blast
  have wft: "well_formed D t" by (rule settled_wf[OF wf t])
  have len: "NUM_NODES D \<le> length (own_row s)" "length (predecessors s) = NUM_NODES D"
    using wf wf_own_addr(3)[OF wf]
    by (simp_all add: well_formed_def own_row_def row_def own_addr_def)
  have tt: "own_row t ! d = fst (relaxed D s d) \<and> predecessors t ! d = snd (relaxed D s d)"
    if "d < NUM_NODES D" "d \<noteq> nodeid s" for d
    using t that len unfolding settled_def by simp
  have rows: "row t v = row s v" if "v < NUM_NODES D" "v \<noteq> nodeid s" for v
    by (rule settled_row[OF wf t that])
  show ?thesis
  proof (cases "own_row t = own_row s")
    case True
    then have "u = t" using c by simp
    then show ?thesis using u wft tt rows by (simp add: settled_same[OF t])
  next
    case False
    then have sent: "sent_so_far D t (neighbours D t) u" and p: "predecessors u = predecessors t"
      using c by simp_all
    have "well_formed D u" using sent_so_far_wf[OF wft sent] p by simp
    moreover have "nodeid u = nodeid s"
      using sent by (simp add: sent_so_far_def settled_same[OF t])
    ultimately show ?thesis
      using u tt rows p sent_so_far_own_row[OF wft sent]
      by (simp add: settled_same[OF t])
  qed
qed

lemma relaxed_facts:
  assumes self: "Fin 0 \<le> link_cost s (nodeid s)" and r: "relaxed D s d = (c, p)"
  shows "\<forall>v<NUM_NODES D. v \<noteq> nodeid s \<longrightarrow> c \<le> via s v d"
    and "c \<noteq> Inf \<Longrightarrow>
         \<exists>v<NUM_NODES D. v \<noteq> nodeid s \<and> p = Some v \<and> c = via s v d
            \<and> (\<forall>w<v. w \<noteq> nodeid s \<longrightarrow> c < via s w d)"
proof -
  have "case fold (improve s d) [0..<NUM_NODES D] (Inf, predecessors s ! d) of (c, p) \<Rightarrow>
           (\<forall>v<NUM_NODES D. v \<noteq> nodeid s \<longrightarrow> c \<le> via s v d)
           \<and> (if c = Inf then p = predecessors s ! d
               else \<exists>v<NUM_NODES D. v \<noteq> nodeid s \<and> p = Some v \<and> c = via s v d
                          \<and> (\<forall>u<v. u \<noteq> nodeid s \<longrightarrow> c < via s u d))"
    by (rule relaxed_prefix[OF self])
  then have both: "(\<forall>v<NUM_NODES D. v \<noteq> nodeid s \<longrightarrow> c \<le> via s v d)
           \<and> (if c = Inf then p = predecessors s ! d
               else \<exists>v<NUM_NODES D. v \<noteq> nodeid s \<and> p = Some v \<and> c = via s v d
                          \<and> (\<forall>u<v. u \<noteq> nodeid s \<longrightarrow> c < via s u d))"
    using r by (simp add: relaxed_def)
  show "\<forall>v<NUM_NODES D. v \<noteq> nodeid s \<longrightarrow> c \<le> via s v d"
    using both by simp
  show "\<exists>v<NUM_NODES D. v \<noteq> nodeid s \<and> p = Some v \<and> c = via s v d
            \<and> (\<forall>w<v. w \<noteq> nodeid s \<longrightarrow> c < via s w d)" if "c \<noteq> Inf"
    using both that by simp
qed

lemma best_after_relaxing:
  assumes wf: "well_formed D s" and self: "Fin 0 \<le> link_cost s (nodeid s)"
    and d: "d < NUM_NODES D" "d \<noteq> nodeid s"
    and u: "nodeid u = nodeid s" "\<forall>v. link_cost u v = link_cost s v"
      "\<forall>v<NUM_NODES D. v \<noteq> nodeid s \<longrightarrow> row u v = row s v"
      "own_row u ! d = fst (relaxed D s d)"
  shows "best D u d = fst (relaxed D s d)"
    and "\<forall>v<NUM_NODES D. v \<noteq> nodeid s \<longrightarrow> via u v d = via s v d"
proof -
  obtain c p where r: "relaxed D s d = (c, p)" by (cases "relaxed D s d")
  have pre: "\<forall>v<NUM_NODES D. v \<noteq> nodeid s \<longrightarrow> c \<le> via s v d"
    "c \<noteq> Inf \<Longrightarrow> \<exists>v<NUM_NODES D. v \<noteq> nodeid s \<and> c = via s v d"
    using relaxed_facts[OF self r] by blast+
  show same: "\<forall>v<NUM_NODES D. v \<noteq> nodeid s \<longrightarrow> via u v d = via s v d"
    using u by (simp add: via_def)
  have own: "via u (nodeid s) d = link_cost s (nodeid s) + c"
    using u r by (simp add: via_def own_row_def)
  have nid: "nodeid s < NUM_NODES D" using wf by (simp add: well_formed_def)
  have lower: "c \<le> via u v d" if "v < NUM_NODES D" for v
  proof (cases "v = nodeid s")
    case True
    then show ?thesis using own cost_self_loop[OF self, of c] by simp
  next
    case False
    then show ?thesis using pre(1) same that by simp
  qed
  have attained: "\<exists>v<NUM_NODES D. via u v d = c"
  proof (cases "c = Inf")
    case True
    then show ?thesis using own nid by auto
  next
    case False
    then show ?thesis using pre(2) same by metis
  qed
  have "Min (set (map (\<lambda>v. via u v d) [0..<NUM_NODES D])) = c"
  proof (rule Min_eqI)
    show "finite (set (map (\<lambda>v. via u v d) [0..<NUM_NODES D]))" by simp
    show "c \<le> y" if "y \<in> set (map (\<lambda>v. via u v d) [0..<NUM_NODES D])" for y
      using that lower by auto
    show "c \<in> set (map (\<lambda>v. via u v d) [0..<NUM_NODES D])"
      using attained by auto
  qed
  then show "best D u d = fst (relaxed D s d)" by (simp add: best_def r)
qed

lemma update_helper_invariants:
  assumes wf: "well_formed D s" and self: "Fin 0 \<le> link_cost s (nodeid s)"
  shows "\<exists>u. update_helper D s = (None, u) \<and> well_formed D u
             \<and> fixed_point D u \<and> predecessors_achieve D u \<and> first_best D u"
proof -
  obtain u where run: "update_helper D s = (None, u)" and wfu: "well_formed D u"
    and u: "nodeid u = nodeid s" "\<forall>v. link_cost u v = link_cost s v"
      "\<forall>v<NUM_NODES D. v \<noteq> nodeid s \<longrightarrow> row u v = row s v"
    and ent: "\<forall>d<NUM_NODES D. d \<noteq> nodeid s \<longrightarrow>
                   own_row u ! d = fst (relaxed D s d)
                   \<and> predecessors u ! d = snd (relaxed D s d)"
    using update_helper_relaxed[OF wf] by blast
  have best: "best D u d = own_row u ! d"
    and same: "\<forall>v<NUM_NODES D. v \<noteq> nodeid s \<longrightarrow> via u v d = via s v d"
    if "d < NUM_NODES D" "d \<noteq> nodeid s" for d
    using best_after_relaxing[OF wf self that u] ent that by simp_all
  have arg: "case predecessors u ! d of
           None \<Rightarrow> False
         | Some p \<Rightarrow> p < NUM_NODES D \<and> p \<noteq> nodeid u \<and> via u p d = own_row u ! d
                     \<and> (\<forall>v\<in>{..<p}. v \<noteq> nodeid u \<longrightarrow> own_row u ! d < via u v d)"
    if d: "d < NUM_NODES D" "d \<noteq> nodeid s" and fin: "own_row u ! d \<noteq> Inf" for d
  proof -
    obtain c p where r: "relaxed D s d = (c, p)" by (cases "relaxed D s d")
    have cp: "own_row u ! d = c" "predecessors u ! d = p" using ent d r by simp_all
    then have "c \<noteq> Inf" using fin by simp
    then obtain v where v: "v < NUM_NODES D" "v \<noteq> nodeid s" "p = Some v" "c = via s v d"
        "\<forall>w<v. w \<noteq> nodeid s \<longrightarrow> c < via s w d"
      using relaxed_facts(2)[OF self r] by blast
    have "\<forall>w<v. w \<noteq> nodeid s \<longrightarrow> c < via u w d"
      using v(1,5) same[OF d] by auto
    then show ?thesis using v same[OF d] cp u(1) by simp
  qed
  have "fixed_point D u" using best u(1) by (simp add: fixed_point_def)
  moreover have "predecessors_achieve D u"
    unfolding predecessors_achieve_def
  proof (intro ballI impI)
    fix d assume "d \<in> {..<NUM_NODES D}" "d \<noteq> nodeid u" "own_row u ! d \<noteq> Inf"
    then have "case predecessors u ! d of
           None \<Rightarrow> False
         | Some p \<Rightarrow> p < NUM_NODES D \<and> p \<noteq> nodeid u \<and> via u p d = own_row u ! d
                     \<and> (\<forall>v\<in>{..<p}. v \<noteq> nodeid u \<longrightarrow> own_row u ! d < via u v d)"
      using arg[of d] u(1) by simp
    then show "case predecessors u ! d of None \<Rightarrow> False
         | Some p \<Rightarrow> p < NUM_NODES D \<and> via u p d = own_row u ! d"
      by (simp split: option.splits)
  qed
  moreover have "first_best D u"
    unfolding first_best_def
  proof (intro ballI impI)
    fix d assume d: "d \<in> {..<NUM_NODES D}" "d \<noteq> nodeid u" "best D u d \<noteq> Inf"
    then have b: "best D u d = own_row u ! d" using best[of d] u(1) by simp
    then have "case predecessors u ! d of
           None \<Rightarrow> False
         | Some p \<Rightarrow> p < NUM_NODES D \<and> p \<noteq> nodeid u \<and> via u p d = own_row u ! d
                     \<and> (\<forall>v\<in>{..<p}. v \<noteq> nodeid u \<longrightarrow> own_row u ! d < via u v d)"
      using arg[of d] u(1) d by simp
    then show "case predecessors u ! d of None \<Rightarrow> False
         | Some p \<Rightarrow> p < NUM_NODES D \<and> p \<noteq> nodeid u \<and> via u p d = best D u d
                     \<and> (\<forall>v\<in>{..<p}. v \<noteq> nodeid u \<longrightarrow> best D u d < via u v d)"
      unfolding b .
  qed
  ultimately show ?thesis using run wfu by blast
qed

subsection \<open>Construction\<close>

lemma new_rows_fields:
  "next_addr (new_rows n k s) = next_addr s + k"
  "dist_table (new_rows n k s) = dist_table s @ [next_addr s ..< next_addr s + k]"
  "heap (new_rows n k s) a =
     (if next_addr s \<le> a \<and> a < next_addr s + k then replicate n Inf else heap s a)"
  "nodeid (new_rows n k s) = nodeid s"
  "predecessors (new_rows n k s) = predecessors s"
  "simulator_cost (new_rows n k s) = simulator_cost s"
  "link_layer (new_rows n k s) = link_layer s"
proof (induction k arbitrary: s)
  case 0
  {
    case 1 show ?case by simp
  next
    case 2 show ?case by simp
  next
    case 3 show ?case by auto
  next
    case 4 show ?case by simp
  next
    case 5 show ?case by simp
  next
    case 6 show ?case by simp
  next
    case 7 show ?case by simp
  }
next
  case (Suc k)
  {
    case 1 show ?case by (simp add: alloc_def Suc.IH)
  next
    case 2 show ?case by (simp add: alloc_def Suc.IH upt_conv_Cons del: upt_Suc)
  next
    case 3 show ?case by (auto simp: alloc_def Suc.IH)
  next
    case 4 show ?case by (simp add: alloc_def Suc.IH)
  next
    case 5 show ?case by (simp add: alloc_def Suc.IH)
  next
    case 6 show ?case by (simp add: alloc_def Suc.IH)
  next
    case 7 show ?case by (simp add: alloc_def Suc.IH)
  }
qed

lemma init_seeded:
  assumes "nid < NUM_NODES D" and "nid < length C"
  shows "init D nid C = for_in [0..<NUM_NODES D] (greet D) (seeded D nid C)"
proof -
  let ?N = "NUM_NODES D"
  let ?s2 = "(new_rows ?N ?N (blank nid C))\<lparr>predecessors := replicate ?N None\<rparr>"
  have tbl: "dist_table (new_rows ?N ?N (blank nid C)) = [0..<?N]"
    "next_addr (new_rows ?N ?N (blank nid C)) = ?N"
    by (simp_all add: new_rows_fields blank_def)
  have "(snd (alloc (C ! nid) ?s2))\<lparr>dist_table := [0..<?N][nid := ?N]\<rparr> = seeded D nid C"
    by (rule state.equality)
       (auto simp: alloc_def seeded_def new_rows_fields blank_def fun_eq_iff)
  then show ?thesis
    using assms
    by (simp add: init_def Let_def list_get_def list_set_def alloc_def tbl
          split: prod.splits)
qed

lemma seeded_fields [simp]:
  "nodeid (seeded D nid C) = nid"
  "next_addr (seeded D nid C) = Suc (NUM_NODES D)"
  "dist_table (seeded D nid C) = [0..<NUM_NODES D][nid := NUM_NODES D]"
  "predecessors (seeded D nid C) = replicate (NUM_NODES D) None"
  "simulator_cost (seeded D nid C) = C"
  "link_layer (seeded D nid C) = []"
  "link_cost (seeded D nid C) v = C ! nid ! v"
  by (simp_all add: seeded_def link_cost_def)

lemma seeded_rows:
  assumes "nid < NUM_NODES D"
  shows "own_addr (seeded D nid C) = NUM_NODES D"
    and "own_row (seeded D nid C) = C ! nid"
    and "v < NUM_NODES D \<Longrightarrow> v \<noteq> nid \<Longrightarrow>
         row (seeded D nid C) v = replicate (NUM_NODES D) Inf"
  using assms by (simp_all add: own_addr_def own_row_def row_def) (simp_all add: seeded_def)

lemma seeded_wf:
  assumes "nid < NUM_NODES D" and "nid < length C" and "NUM_NODES D \<le> length (C ! nid)"
  shows "well_formed D (seeded D nid C)"
proof -
  have "distinct ([0..<NUM_NODES D][nid := NUM_NODES D])"
    by (auto simp: distinct_list_update dest: in_set_butlastD set_update_subset_insert [THEN subsetD])
  moreover have "a < Suc (NUM_NODES D) \<and> NUM_NODES D \<le> length (heap (seeded D nid C) a)"
    if "a \<in> set ([0..<NUM_NODES D][nid := NUM_NODES D])" for a
  proof -
    have "a \<in> insert (NUM_NODES D) (set [0..<NUM_NODES D])"
      using that set_update_subset_insert by fastforce
    then show ?thesis using assms(3) by (auto simp: seeded_def)
  qed
  ultimately show ?thesis using assms by (simp add: well_formed_def)
qed

lemma carried_predecessors: "carried (t\<lparr>predecessors := ps\<rparr>) = carried t"
  by (simp add: fun_eq_iff carried_def)

lemma sent_so_far_predecessors:
  "sent_so_far D s js t \<Longrightarrow> sent_so_far D s js (t\<lparr>predecessors := ps\<rparr>)"
  unfolding sent_so_far_def carried_predecessors by simp

lemma greet_step:
  assumes wf: "well_formed D s" and k: "k < NUM_NODES D"
    and inv: "sent_so_far D s (filter (neighbour s) [0..<k]) t"
    and len: "length (predecessors t) = NUM_NODES D"
  shows "\<exists>t'. greet D k t = (None, t')
              \<and> sent_so_far D s (filter (neighbour s) [0..<Suc k]) t'
              \<and> predecessors t' =
                  (if neighbour s k then (predecessors t)[k := Some k] else predecessors t)"
proof -
  have same: "nodeid t = nodeid s" "simulator_cost t = simulator_cost s"
    using inv unfolding sent_so_far_def by auto
  have glc: "get_link_cost t k = Inr (link_cost s k)"
    using wf_get_link_cost[OF wf k] by (simp add: get_link_cost_def same)
  show ?thesis
  proof (cases "neighbour s k")
    case True
    obtain t1 where t1: "send_vector D k t = (None, t1)"
        "sent_so_far D s (filter (neighbour s) [0..<k] @ [k]) t1"
        "predecessors t1 = predecessors t"
      using send_vector_sent[OF wf inv, of k] by blast
    have "set_predecessor k k t1 = (None, t1\<lparr>predecessors := (predecessors t)[k := Some k]\<rparr>)"
      using k len t1(3) by (simp add: set_predecessor_def list_set_def)
    then have "greet D k t = (None, t1\<lparr>predecessors := (predecessors t)[k := Some k]\<rparr>)"
      using True t1(1) by (simp add: greet_def neighbour_def same glc and_then_def)
    then show ?thesis
      using sent_so_far_predecessors[OF t1(2)] True
      by (simp add: filter_upt_Suc del: upt_Suc)
  next
    case False
    then have "greet D k t = (None, t)"
      by (auto simp: greet_def neighbour_def same glc)
    then show ?thesis using inv False by (simp add: filter_upt_Suc del: upt_Suc)
  qed
qed

lemma greet_loop:
  assumes wf: "well_formed D s"
  shows "\<exists>t. for_in [0..<NUM_NODES D] (greet D) s = (None, t)
             \<and> sent_so_far D s (neighbours D s) t
             \<and> length (predecessors t) = NUM_NODES D
             \<and> (\<forall>j<NUM_NODES D. predecessors t ! j =
                    (if neighbour s j then Some j else predecessors s ! j))"
proof -
  define I where "I = (\<lambda>k t. sent_so_far D s (filter (neighbour s) [0..<k]) t
      \<and> length (predecessors t) = NUM_NODES D
      \<and> (\<forall>j<NUM_NODES D. predecessors t ! j =
             (if j < k \<and> neighbour s j then Some j else predecessors s ! j)))"
  have "\<exists>t. for_in [0..<NUM_NODES D] (greet D) s = (None, t) \<and> I (NUM_NODES D) t"
  proof (rule for_in_upt_rule)
    show "I 0 s" using wf by (simp add: I_def sent_so_far_start well_formed_def)
  next
    fix i t assume i: "i < NUM_NODES D" and inv: "I i t"
    obtain t' where t': "greet D i t = (None, t')"
        "sent_so_far D s (filter (neighbour s) [0..<Suc i]) t'"
        "predecessors t' =
           (if neighbour s i then (predecessors t)[i := Some i] else predecessors t)"
      using greet_step[OF wf i, of t] inv unfolding I_def by blast
    have "I (Suc i) t'"
      unfolding I_def
    proof (intro conjI allI impI)
      show "sent_so_far D s (filter (neighbour s) [0..<Suc i]) t'" by (rule t'(2))
      show "length (predecessors t') = NUM_NODES D"
        using inv by (simp add: t'(3) I_def)
      fix j assume "j < NUM_NODES D"
      then show "predecessors t' ! j =
             (if j < Suc i \<and> neighbour s j then Some j else predecessors s ! j)"
        using inv by (auto simp: t'(3) I_def nth_list_update less_Suc_eq)
    qed
    then show "\<exists>t'. greet D i t = (None, t') \<and> I (Suc i) t'" using t'(1) by blast
  qed
  then show ?thesis by (auto simp: I_def neighbours_def)
qed

lemma init_result:
  assumes "nid < NUM_NODES D" and "nid < length C" and "NUM_NODES D \<le> length (C ! nid)"
  shows "\<exists>u. init D nid C = (None, u)
           \<and> sent_so_far D (seeded D nid C) (neighbours D (seeded D nid C)) u
           \<and> well_formed D u
           \<and> nodeid u = nid \<and> simulator_cost u = C
           \<and> dist_table u = [0..<NUM_NODES D][nid := NUM_NODES D]
           \<and> (\<forall>v<NUM_NODES D. v \<noteq> nid \<longrightarrow> row u v = replicate (NUM_NODES D) Inf)
           \<and> own_row u = C ! nid
           \<and> length (predecessors u) = NUM_NODES D
           \<and> (\<forall>j<NUM_NODES D. predecessors u ! j =
                  (if j \<noteq> nid \<and> C ! nid ! j \<noteq> Inf then Some j else None))"
proof -
  let ?s = "seeded D nid C"
  have wf: "well_formed D ?s" by (rule seeded_wf[OF assms])
  obtain u where u: "for_in [0..<NUM_NODES D] (greet D) ?s = (None, u)"
      "sent_so_far D ?s (neighbours D ?s) u"
      "length (predecessors u) = NUM_NODES D"
      "\<forall>j<NUM_NODES D. predecessors u ! j =
                    (if neighbour ?s j then Some j else predecessors ?s ! j)"
    using greet_loop[OF wf] by blast
  have nb: "neighbour ?s j \<longleftrightarrow> j \<noteq> nid \<and> C ! nid ! j \<noteq> Inf" for j
    by (simp add: neighbour_def)
  have rows: "own_row u = own_row ?s" "\<And>v. v < NUM_NODES D \<Longrightarrow> row u v = row ?s v"
    using sent_so_far_own_row[OF wf u(2)] by simp_all
  have same: "nodeid u = nid" "dist_table u = dist_table ?s" "simulator_cost u = C"
    using u(2) unfolding sent_so_far_def by simp_all
  have wfu: "well_formed D u"
    using sent_so_far_wf[OF wf u(2)] u(3) by simp
  have "\<forall>j<NUM_NODES D. predecessors u ! j =
                  (if j \<noteq> nid \<and> C ! nid ! j \<noteq> Inf then Some j else None)"
    using u(4) by (simp add: nb)
  then show ?thesis
    using u(1,2,3) rows same wfu seeded_rows[OF assms(1)] init_seeded[OF assms(1,2)]
    by simp
qed

subsection \<open>Storing a received vector\<close>

lemma py_index_bound: "py_index n i = Inr k \<Longrightarrow> k < n"
  by (auto simp: py_index_def split: if_splits)

lemma update_cases:
  "update D pkt s =
     (case py_index (length (dist_table s)) (src pkt) of
        Inl e \<Rightarrow> (Some e, s)
      | Inr k \<Rightarrow>
          if heap s (dist_table s ! k) = heap s (dist_vector pkt) then (None, s)
          else update_helper D (stored s k (dist_vector pkt)))"
  by (simp add: update_def Let_def stored_def alloc_def split: sum.splits)

lemma stored_fields [simp]:
  "nodeid (stored s k v) = nodeid s"
  "next_addr (stored s k v) = Suc (next_addr s)"
  "dist_table (stored s k v) = (dist_table s)[k := next_addr s]"
  "predecessors (stored s k v) = predecessors s"
  "simulator_cost (stored s k v) = simulator_cost s"
  "link_layer (stored s k v) = link_layer s"
  "link_cost (stored s k v) j = link_cost s j"
  "heap (stored s k v) b = (if b = next_addr s then heap s v else heap s b)"
  by (simp_all add: stored_def alloc_def link_cost_def)

lemma stored_wf:
  assumes wf: "well_formed D s" and k: "k < NUM_NODES D"
    and len: "NUM_NODES D \<le> length (heap s v)"
  shows "well_formed D (stored s k v)"
proof -
  have fresh: "next_addr s \<notin> set (dist_table s)"
    using wf by (auto simp: well_formed_def)
  have d: "distinct ((dist_table s)[k := next_addr s])"
    using wf fresh by (simp add: distinct_list_update well_formed_def)
  have "a < Suc (next_addr s) \<and> NUM_NODES D \<le> length (heap (stored s k v) a)"
    if "a \<in> set ((dist_table s)[k := next_addr s])" for a
  proof -
    have "a = next_addr s \<or> a \<in> set (dist_table s)"
      using that set_update_subset_insert by fastforce
    then show ?thesis using wf len by (auto simp: well_formed_def)
  qed
  then show ?thesis using wf d by (simp add: well_formed_def)
qed

lemma cost_zero_add [simp]: "Fin 0 + a = a"
  by (simp add: plus_cost_def split: cost.splits)

lemma fixed_point_seeded:
  assumes n: "nid < NUM_NODES D" and z: "C ! nid ! nid = Fin 0"
    and u: "nodeid u = nid" "own_row u = C ! nid"
      "\<forall>v<NUM_NODES D. v \<noteq> nid \<longrightarrow> row u v = replicate (NUM_NODES D) Inf"
      "simulator_cost u = C"
  shows "fixed_point D u"
  unfolding fixed_point_def
proof (intro ballI impI)
  fix d assume d: "d \<in> {..<NUM_NODES D}" "d \<noteq> nodeid u"
  have own: "via u nid d = own_row u ! d"
    using u z by (simp add: via_def link_cost_def own_row_def)
  have other: "via u v d = Inf" if "v < NUM_NODES D" "v \<noteq> nid" for v
    using u that d by (simp add: via_def)
  have "Min (set (map (\<lambda>v. via u v d) [0..<NUM_NODES D])) = own_row u ! d"
  proof (rule Min_eqI)
    show "finite (set (map (\<lambda>v. via u v d) [0..<NUM_NODES D]))" by simp
    show "own_row u ! d \<le> y" if "y \<in> set (map (\<lambda>v. via u v d) [0..<NUM_NODES D])" for y
    proof -
      from that have "\<exists>v<NUM_NODES D. y = via u v d" by auto
      then obtain v where v: "v < NUM_NODES D" "y = via u v d" by blast
      show ?thesis using own other[OF v(1)] v(2) by (cases "v = nid") simp_all
    qed
    show "own_row u ! d \<in> set (map (\<lambda>v. via u v d) [0..<NUM_NODES D])"
      using own n by force
  qed
  then show "own_row u ! d = best D u d" by (simp add: best_def)
qed

subsection \<open>The node's distance to itself along a run\<close>

lemma framed_self_zero:
  assumes "self_zero D s" and "framed D s t"
  shows "self_zero D t"
  using assms by (simp add: self_zero_def framed_def own_addr_def)

lemma update_self_zero:
  assumes z: "self_zero D s" and o: "py_index (NUM_NODES D) (src pkt) \<noteq> Inr (nodeid s)"
  shows "self_zero D (snd (update D pkt s)) \<and> nodeid (snd (update D pkt s)) = nodeid s"
proof (cases "py_index (length (dist_table s)) (src pkt)")
  case (Inl e)
  then show ?thesis using z by (simp add: update_cases)
next
  case (Inr k)
  have k: "k \<noteq> nodeid s" using o Inr z by (auto simp: self_zero_def)
  show ?thesis
  proof (cases "heap s (dist_table s ! k) = heap s (dist_vector pkt)")
    case True
    then show ?thesis using z Inr by (simp add: update_cases)
  next
    case False
    let ?t = "stored s k (dist_vector pkt)"
    obtain e u where u: "update_helper D ?t = (e, u)" by (cases "update_helper D ?t")
    have "self_zero D ?t"
      using z k by (auto simp: self_zero_def own_addr_def)
    then have "self_zero D u" using update_helper_framed[OF u] framed_self_zero by blast
    moreover have "nodeid u = nodeid s"
      using update_helper_framed[OF u] by (simp add: framed_def)
    ultimately show ?thesis using Inr False u by (simp add: update_cases)
  qed
qed

lemma handle_self_zero:
  assumes z: "self_zero D s" and o: "from_other D (nodeid s) ev"
  shows "self_zero D (handle D ev s) \<and> nodeid (handle D ev s) = nodeid s"
proof (cases ev)
  case (New_list xs)
  then show ?thesis using z by (auto simp: alloc_def self_zero_def own_addr_def)
next
  case (Advertisement pkt)
  then show ?thesis using update_self_zero[OF z, of pkt] o by (simp add: from_other_def)
next
  case (Link_cost_changed C w c)
  let ?t = "s\<lparr>simulator_cost := C\<rparr>"
  obtain e u where u: "update_helper D ?t = (e, u)" by (cases "update_helper D ?t")
  have "self_zero D ?t" using z by (simp add: self_zero_def own_addr_def)
  then have "self_zero D u" using update_helper_framed[OF u] framed_self_zero by blast
  moreover have "nodeid u = nodeid s"
    using update_helper_framed[OF u] by (simp add: framed_def)
  ultimately show ?thesis
    using Link_cost_changed u by (simp add: link_cost_change_handler_def)
qed

lemma run_self_zero:
  "self_zero D s \<Longrightarrow> \<forall>ev\<in>set evs. from_other D (nodeid s) ev \<Longrightarrow>
   self_zero D (run D evs s) \<and> nodeid (run D evs s) = nodeid s"
proof (induction evs arbitrary: s)
  case Nil
  then show ?case by (simp add: run_def)
next
  case (Cons ev evs)
  have h: "self_zero D (handle D ev s)" "nodeid (handle D ev s) = nodeid s"
    using handle_self_zero[of D s ev] Cons.prems by simp_all
  have "self_zero D (run D evs (handle D ev s))
        \<and> nodeid (run D evs (handle D ev s)) = nodeid (handle D ev s)"
    using Cons.IH[OF h(1)] Cons.prems(2) h(2) by simp
  then show ?case using h(2) by (simp add: run_def)
qed

subsection \<open>Packets along a run\<close>

lemma framed_private:
  assumes "packet_copies D" and "framed D s t" and "packets_private s"
  shows "packets_private t"
proof -
  obtain ps where ps: "link_layer t = link_layer s @ ps"
      "\<forall>p\<in>set ps. next_addr s \<le> dist_vector p \<and> dist_vector p < next_addr t"
    using assms(1,2) by (auto simp: framed_def)
  have same: "dist_table t = dist_table s" "next_addr s \<le> next_addr t"
    using assms(2) by (simp_all add: framed_def)
  have tbl: "\<forall>a\<in>set (dist_table s). a < next_addr s"
    and old: "\<forall>p\<in>set (link_layer s). dist_vector p < next_addr s
                                  \<and> dist_vector p \<notin> set (dist_table s)"
    using assms(3) by (simp_all add: packets_private_def)
  have "dist_vector p < next_addr t \<and> dist_vector p \<notin> set (dist_table s)"
    if "p \<in> set (link_layer s @ ps)" for p
  proof (cases "p \<in> set ps")
    case True
    then have "next_addr s \<le> dist_vector p" "dist_vector p < next_addr t"
      using ps(2) by auto
    then show ?thesis using tbl by auto
  next
    case False
    then have "p \<in> set (link_layer s)" using that by simp
    then show ?thesis using old same(2) by fastforce
  qed
  moreover have "\<forall>a\<in>set (dist_table s). a < next_addr t"
    using tbl same(2) by fastforce
  ultimately show ?thesis by (simp add: packets_private_def same ps(1))
qed

lemma framed_frozen:
  assumes "framed D s t" and "packets_private s" and "p \<in> set (link_layer s)"
  shows "heap t (dist_vector p) = heap s (dist_vector p)"
proof -
  have p: "dist_vector p < next_addr s" "dist_vector p \<notin> set (dist_table s)"
    using assms(2,3) by (simp_all add: packets_private_def)
  have "\<not> is_own s (dist_vector p)"
    using p(2) by (auto simp: is_own_def)
  then show ?thesis using assms(1) p(1) by (simp add: framed_def)
qed

lemma stored_private:
  assumes "packets_private s"
  shows "packets_private (stored s k v)"
proof -
  have "a \<in> insert (next_addr s) (set (dist_table s))"
    if "a \<in> set ((dist_table s)[k := next_addr s])" for a
    using that set_update_subset_insert by fastforce
  then show ?thesis
    using assms by (fastforce simp: packets_private_def)
qed

lemma stored_frozen:
  assumes "packets_private s" and "p \<in> set (link_layer s)"
  shows "heap (stored s k v) (dist_vector p) = heap s (dist_vector p)"
  using assms by (auto simp: packets_private_def)

lemma handle_frozen:
  assumes pp: "packets_private s"
  shows "(\<exists>ps. link_layer (handle D ev s) = link_layer s @ ps)
         \<and> (\<forall>p\<in>set (link_layer s).
               heap (handle D ev s) (dist_vector p) = heap s (dist_vector p))
         \<and> (packet_copies D \<longrightarrow> packets_private (handle D ev s))"
proof (cases ev)
  case (New_list xs)
  then show ?thesis
    using pp by (fastforce simp: alloc_def packets_private_def)
next
  case (Link_cost_changed C w c)
  let ?t = "s\<lparr>simulator_cost := C\<rparr>"
  obtain e u where u: "update_helper D ?t = (e, u)" by (cases "update_helper D ?t")
  have fr: "framed D ?t u" by (rule update_helper_framed[OF u])
  have ppt: "packets_private ?t" using pp by (simp add: packets_private_def)
  have h: "handle D ev s = u"
    using Link_cost_changed u by (simp add: link_cost_change_handler_def)
  have "\<exists>ps. link_layer u = link_layer s @ ps" using fr by (auto simp: framed_def)
  moreover have "\<forall>p\<in>set (link_layer s). heap u (dist_vector p) = heap s (dist_vector p)"
    using framed_frozen[OF fr ppt] by simp
  moreover have "packet_copies D \<longrightarrow> packets_private u"
    using framed_private[OF _ fr ppt] by simp
  ultimately show ?thesis by (simp add: h)
next
  case (Advertisement pkt)
  show ?thesis
  proof (cases "py_index (length (dist_table s)) (src pkt)")
    case (Inl x)
    then show ?thesis using Advertisement pp by (simp add: update_cases)
  next
    case (Inr k)
    show ?thesis
    proof (cases "heap s (dist_table s ! k) = heap s (dist_vector pkt)")
      case True
      then show ?thesis using Advertisement Inr pp by (simp add: update_cases)
    next
      case False
      let ?t = "stored s k (dist_vector pkt)"
      obtain e u where u: "update_helper D ?t = (e, u)" by (cases "update_helper D ?t")
      have fr: "framed D ?t u" by (rule update_helper_framed[OF u])
      have ppt: "packets_private ?t" by (rule stored_private[OF pp])
      have h: "handle D ev s = u"
        using Advertisement Inr False u by (simp add: update_cases)
      have "\<exists>ps. link_layer u = link_layer s @ ps" using fr by (auto simp: framed_def)
      moreover have "\<forall>p\<in>set (link_layer s). heap u (dist_vector p) = heap s (dist_vector p)"
        using framed_frozen[OF fr ppt] stored_frozen[OF pp] by simp
      moreover have "packet_copies D \<longrightarrow> packets_private u"
        using framed_private[OF _ fr ppt] by simp
      ultimately show ?thesis by (simp add: h)
    qed
  qed
qed

lemma run_frozen:
  assumes "packet_copies D"
  shows "packets_private s \<Longrightarrow>
         (\<exists>ps. link_layer (run D evs s) = link_layer s @ ps)
         \<and> (\<forall>p\<in>set (link_layer s).
               heap (run D evs s) (dist_vector p) = heap s (dist_vector p))
         \<and> packets_private (run D evs s)"
proof (induction evs arbitrary: s)
  case Nil
  then show ?case by (simp add: run_def)
next
  case (Cons ev evs)
  let ?t = "handle D ev s"
  have t: "\<exists>ps. link_layer ?t = link_layer s @ ps"
      "\<forall>p\<in>set (link_layer s). heap ?t (dist_vector p) = heap s (dist_vector p)"
      "packets_private ?t"
    using handle_frozen[OF Cons.prems, of D ev] assms by simp_all
  have r: "\<exists>ps. link_layer (run D evs ?t) = link_layer ?t @ ps"
      "\<forall>p\<in>set (link_layer ?t). heap (run D evs ?t) (dist_vector p) = heap ?t (dist_vector p)"
      "packets_private (run D evs ?t)"
    using Cons.IH[OF t(3)] by simp_all
  have eq: "run D (ev # evs) s = run D evs ?t" by (simp add: run_def)
  obtain ps where ps: "link_layer ?t = link_layer s @ ps" using t(1) by blast
  obtain qs where qs: "link_layer (run D evs ?t) = link_layer ?t @ qs" using r(1) by blast
  have "\<exists>rs. link_layer (run D evs ?t) = link_layer s @ rs" using ps qs by simp
  moreover have "\<forall>p\<in>set (link_layer s).
               heap (run D evs ?t) (dist_vector p) = heap s (dist_vector p)"
    using t(2) r(2) ps by simp
  ultimately show ?case using r(3) by (simp add: eq)
qed

subsection \<open>Packets carry the own row\<close>

lemma set_own_entry_silent:
  "set_own_entry d c s = (e, t) \<Longrightarrow> link_layer t = link_layer s"
  by (auto simp: set_own_entry_def with_value_def split: sum.splits)

lemma set_predecessor_silent:
  "set_predecessor d v s = (e, t) \<Longrightarrow> link_layer t = link_layer s"
  by (auto simp: set_predecessor_def with_value_def split: sum.splits)

lemma relax_via_silent:
  assumes "relax_via d v s = (e, t)"
  shows "link_layer t = link_layer s"
proof -
  have "link_layer t = link_layer s"
    if "and_then (set_own_entry d c) (set_predecessor d v) s = (e, t)" for c
    using and_then_cases[OF that] set_own_entry_silent set_predecessor_silent
    by metis
  then show ?thesis
    using assms by (auto simp: relax_via_def dest!: with_value_cases split: if_splits)
qed

lemma relax_dest_silent:
  assumes "relax_dest D d s = (e, t)"
  shows "link_layer t = link_layer s"
proof (cases "d = nodeid s")
  case True
  then show ?thesis using assms by (simp add: relax_dest_def)
next
  case False
  then have "and_then (set_own_entry d Inf) (for_in [0..<NUM_NODES D] (relax_via d)) s = (e, t)"
    using assms by (simp add: relax_dest_def)
  then consider s1 where "set_own_entry d Inf s = (None, s1)"
      "for_in [0..<NUM_NODES D] (relax_via d) s1 = (e, t)"
    | x where "set_own_entry d Inf s = (Some x, t)"
    using and_then_cases by blast
  then show ?thesis
  proof cases
    case 1
    have "link_layer t = link_layer s1"
      by (rule for_in_preserves[where P = "\<lambda>u. link_layer u = link_layer s1", OF _ _ 1(2)])
         (auto dest: relax_via_silent)
    then show ?thesis using set_own_entry_silent[OF 1(1)] by simp
  next
    case 2
    then show ?thesis by (rule set_own_entry_silent)
  qed
qed

lemma relax_loop_silent:
  assumes "for_in xs (relax_dest D) s = (e, t)"
  shows "link_layer t = link_layer s"
  by (rule for_in_preserves[where P = "\<lambda>u. link_layer u = link_layer s", OF _ _ assms])
     (auto dest: relax_dest_silent)

lemma carrying_refl: "carrying s s"
  by (simp add: carrying_def)

lemma send_vector_carrying:
  assumes al: "\<forall>a\<in>set (dist_table s). a < next_addr s"
    and c: "carrying s t" and run: "send_vector D i t = (e, t')"
  shows "carrying s t'"
proof (cases "get_dist_vector t")
  case (Inl x)
  then have "t' = t" using run by (simp add: send_vector_def)
  then show ?thesis using c by simp
next
  case (Inr a)
  have same: "nodeid t = nodeid s" "dist_table t = dist_table s" "next_addr s \<le> next_addr t"
      "\<And>b. b < next_addr s \<Longrightarrow> heap t b = heap s b"
    using c by (auto simp: carrying_def)
  obtain ps where ps: "link_layer t = link_layer s @ ps"
      "\<forall>p\<in>set ps. dist_vector p < next_addr t
                            \<and> heap t (dist_vector p) = heap s (own_addr s)"
    using c by (auto simp: carrying_def)
  have a: "a = own_addr s" "nodeid s < length (dist_table s)"
    using get_dist_vector_cases[OF Inr] by (simp_all add: same own_addr_def)
  have a_old: "a < next_addr s" using a al by (simp add: own_addr_def)
  have ha: "heap t a = heap s (own_addr s)" using same(4)[OF a_old] a by simp
  show ?thesis
  proof (cases "packet_copies D")
    case True
    define p where "p = \<lparr>src = int (nodeid t), dest = int i, dist_vector = next_addr t\<rparr>"
    have t': "t' = t\<lparr>heap := (heap t)(next_addr t := heap t a),
                      next_addr := Suc (next_addr t),
                      link_layer := link_layer t @ [p]\<rparr>"
      using run Inr True
      by (simp add: send_vector_def Packet_def alloc_def to_link_layer_def p_def)
    show ?thesis
      unfolding carrying_def
    proof (intro conjI exI[of _ "ps @ [p]"])
      show "\<forall>b<next_addr s. heap t' b = heap s b"
        using same(3,4) by (auto simp: t')
      show "\<forall>q\<in>set (ps @ [p]). dist_vector q < next_addr t'
                            \<and> heap t' (dist_vector q) = heap s (own_addr s)"
        using ps(2) ha by (auto simp: t' p_def less_Suc_eq)
    qed (simp_all add: t' same ps(1) le_SucI)
  next
    case False
    define p where "p = \<lparr>src = int (nodeid t), dest = int i, dist_vector = a\<rparr>"
    have t': "t' = t\<lparr>link_layer := link_layer t @ [p]\<rparr>"
      using run Inr False
      by (simp add: send_vector_def Packet_def to_link_layer_def p_def)
    show ?thesis
      unfolding carrying_def
    proof (intro conjI exI[of _ "ps @ [p]"])
      show "\<forall>b<next_addr s. heap t' b = heap s b"
        using same(4) by (auto simp: t')
      show "\<forall>q\<in>set (ps @ [p]). dist_vector q < next_addr t'
                            \<and> heap t' (dist_vector q) = heap s (own_addr s)"
        using ps(2) ha a_old same(3) by (auto simp: t' p_def)
    qed (simp_all add: t' same ps(1))
  qed
qed

lemma notify_carrying:
  assumes "\<forall>a\<in>set (dist_table s). a < next_addr s"
    and "carrying s t" and "notify D i t = (e, t')"
  shows "carrying s t'"
  using assms(3) send_vector_carrying[OF assms(1,2)] assms(2)
  by (auto simp: notify_def dest!: with_value_cases split: if_splits)

lemma notify_loop_carrying:
  assumes al: "\<forall>a\<in>set (dist_table s). a < next_addr s"
    and run: "for_in xs (notify D) s = (e, t)"
  shows "carrying s t"
  by (rule for_in_preserves[where P = "carrying s", OF _ carrying_refl run])
     (rule notify_carrying[OF al])

lemma update_helper_snapshot:
  assumes al: "\<forall>a\<in>set (dist_table s). a < next_addr s"
    and run: "update_helper D s = (e, u)"
  shows "\<exists>ps. link_layer u = link_layer s @ ps
              \<and> (\<forall>p\<in>set ps. heap u (dist_vector p) = own_row u)"
proof (cases "get_dist_vector s")
  case (Inl x)
  then have "u = s" using run by (simp add: update_helper_def)
  then show ?thesis by simp
next
  case (Inr a0)
  define tail where "tail = (\<lambda>s1. with_value (get_dist_vector s1) (\<lambda>a1.
           if heap s a0 = heap s1 a1 then skip
           else for_in [0..<NUM_NODES D] (notify D)) s1)"
  have "and_then (for_in [0..<NUM_NODES D] (relax_dest D)) tail s = (e, u)"
    using run Inr by (simp add: update_helper_def tail_def Let_def)
  then consider s1 where "for_in [0..<NUM_NODES D] (relax_dest D) s = (None, s1)"
      "tail s1 = (e, u)"
    | x where "for_in [0..<NUM_NODES D] (relax_dest D) s = (Some x, u)"
    using and_then_cases by blast
  then show ?thesis
  proof cases
    case 2
    then show ?thesis using relax_loop_silent by simp
  next
    case 1
    have quiet: "link_layer s1 = link_layer s" by (rule relax_loop_silent[OF 1(1)])
    have "framed D s s1"
      by (rule for_in_framed[OF 1(1)]) (rule relax_dest_framed)
    then have al1: "\<forall>a\<in>set (dist_table s1). a < next_addr s1"
      using al by (fastforce simp: framed_def)
    have "u = s1 \<or> (\<exists>a1. get_dist_vector s1 = Inr a1
                        \<and> for_in [0..<NUM_NODES D] (notify D) s1 = (e, u))"
      using 1(2) unfolding tail_def by (auto dest!: with_value_cases split: if_splits)
    then show ?thesis
    proof
      assume "u = s1"
      then show ?thesis using quiet by simp
    next
      assume "\<exists>a1. get_dist_vector s1 = Inr a1
                   \<and> for_in [0..<NUM_NODES D] (notify D) s1 = (e, u)"
      then obtain a1 where a1: "get_dist_vector s1 = Inr a1"
          "for_in [0..<NUM_NODES D] (notify D) s1 = (e, u)"
        by blast
      have c: "carrying s1 u" by (rule notify_loop_carrying[OF al1 a1(2)])
      have own: "own_addr s1 < next_addr s1"
        using get_dist_vector_cases[OF a1(1)] al1 by (simp add: own_addr_def)
      have "own_row u = heap s1 (own_addr s1)"
        using c own by (simp add: carrying_def own_row_def row_def own_addr_def)
      then show ?thesis using c quiet by (auto simp: carrying_def)
    qed
  qed
qed

lemma handle_snapshot:
  assumes pp: "packets_private s"
  shows "\<exists>ps. link_layer (handle D ev s) = link_layer s @ ps
              \<and> (\<forall>p\<in>set ps. heap (handle D ev s) (dist_vector p) = own_row (handle D ev s))"
proof (cases ev)
  case (New_list xs)
  then show ?thesis by (simp add: alloc_def)
next
  case (Link_cost_changed C w c)
  let ?t = "s\<lparr>simulator_cost := C\<rparr>"
  obtain e u where u: "update_helper D ?t = (e, u)" by (cases "update_helper D ?t")
  have "\<forall>a\<in>set (dist_table ?t). a < next_addr ?t"
    using pp by (simp add: packets_private_def)
  then show ?thesis
    using update_helper_snapshot[OF _ u] Link_cost_changed u
    by (simp add: link_cost_change_handler_def)
next
  case (Advertisement pkt)
  show ?thesis
  proof (cases "py_index (length (dist_table s)) (src pkt)")
    case (Inl x)
    then show ?thesis using Advertisement by (simp add: update_cases)
  next
    case (Inr k)
    show ?thesis
    proof (cases "heap s (dist_table s ! k) = heap s (dist_vector pkt)")
      case True
      then show ?thesis using Advertisement Inr by (simp add: update_cases)
    next
      case False
      let ?t = "stored s k (dist_vector pkt)"
      obtain e u where u: "update_helper D ?t = (e, u)" by (cases "update_helper D ?t")
      have "\<forall>a\<in>set (dist_table ?t). a < next_addr ?t"
        using stored_private[OF pp] by (simp add: packets_private_def)
      then show ?thesis
        using update_helper_snapshot[OF _ u] Advertisement Inr False u
        by (simp add: update_cases)
    qed
  qed
qed

lemma init_private:
  assumes "nid < NUM_NODES D" and "nid < length C" and "NUM_NODES D \<le> length (C ! nid)"
    and "packet_copies D" and "init D nid C = (None, u)"
  shows "packets_private u" and "\<forall>p\<in>set (link_layer u). heap u (dist_vector p) = own_row u"
proof -
  let ?s = "seeded D nid C"
  have sent: "sent_so_far D ?s (neighbours D ?s) u"
    and tbl: "dist_table u = [0..<NUM_NODES D][nid := NUM_NODES D]"
    and own: "own_row u = C ! nid"
    and wfu: "well_formed D u"
    using init_result[OF assms(1-3)] assms(5) by auto
  obtain ps where ps: "link_layer u = link_layer ?s @ ps"
      "map (carried u) ps = map (\<lambda>j. (int (nodeid ?s), int j, own_row ?s)) (neighbours D ?s)"
      "\<forall>p\<in>set ps. dist_vector p < next_addr u \<and> next_addr ?s \<le> dist_vector p"
    using sent assms(4) unfolding sent_so_far_def by auto
  have "a \<le> NUM_NODES D" if "a \<in> set (dist_table u)" for a
  proof -
    have "a \<in> insert (NUM_NODES D) (set [0..<NUM_NODES D])"
      using that set_update_subset_insert unfolding tbl by fastforce
    then show ?thesis by auto
  qed
  then have "\<forall>p\<in>set ps. dist_vector p \<notin> set (dist_table u)"
    using ps(3) by fastforce
  moreover have "\<forall>a\<in>set (dist_table u). a < next_addr u"
    using wfu by (simp add: well_formed_def)
  ultimately show "packets_private u"
    using ps(1,3) by (simp add: packets_private_def)
  have "\<forall>x\<in>set (map (carried u) ps). snd (snd x) = own_row ?s"
    unfolding ps(2) by simp
  then have "\<forall>p\<in>set ps. heap u (dist_vector p) = own_row ?s"
    by (simp add: carried_def)
  then show "\<forall>p\<in>set (link_layer u). heap u (dist_vector p) = own_row u"
    using ps(1) own seeded_rows(2)[OF assms(1)] by simp
qed

subsection \<open>Well-formed states along a run\<close>

lemma update_helper_wf:
  assumes "well_formed D s"
  shows "fst (update_helper D s) = None \<and> well_formed D (snd (update_helper D s))"
  using update_helper_relaxed[OF assms] by auto

lemma handle_wf:
  assumes wf: "well_formed D s" and v: "valid_event D s ev"
  shows "well_formed D (handle D ev s)"
proof (cases ev)
  case (New_list xs)
  have "a \<noteq> next_addr s" if "a \<in> set (dist_table s)" for a
    using wf that by (auto simp: well_formed_def)
  then show ?thesis
    using wf New_list by (auto simp: alloc_def well_formed_def)
next
  case (Link_cost_changed C w c)
  have "well_formed D (s\<lparr>simulator_cost := C\<rparr>)"
    using wf v Link_cost_changed by (simp add: well_formed_def valid_event_def)
  then show ?thesis
    using update_helper_wf Link_cost_changed by (simp add: link_cost_change_handler_def)
next
  case (Advertisement pkt)
  have len: "length (dist_table s) = NUM_NODES D" using wf by (simp add: well_formed_def)
  obtain k where k: "py_index (NUM_NODES D) (src pkt) = Inr k"
    using v Advertisement by (simp add: valid_event_def py_index_def)
  have kn: "k < NUM_NODES D" using k by (rule py_index_bound)
  show ?thesis
  proof (cases "heap s (dist_table s ! k) = heap s (dist_vector pkt)")
    case True
    then show ?thesis using wf Advertisement k by (simp add: update_cases len)
  next
    case False
    have "well_formed D (stored s k (dist_vector pkt))"
      using stored_wf[OF wf kn] v Advertisement by (simp add: valid_event_def)
    then show ?thesis
      using update_helper_wf Advertisement k False by (simp add: update_cases len)
  qed
qed

lemma run_well_formed:
  "well_formed D s \<Longrightarrow> valid_run D s evs \<Longrightarrow> well_formed D (run D evs s)"
proof (induction evs arbitrary: s)
  case Nil
  then show ?case by (simp add: run_def)
next
  case (Cons ev evs)
  have "well_formed D (handle D ev s)"
    using handle_wf Cons.prems by simp
  then have "well_formed D (run D evs (handle D ev s))"
    using Cons.IH Cons.prems(2) by simp
  then show ?case by (simp add: run_def)
qed

lemma reachable_well_formed:
  assumes "nid < NUM_NODES D" and "nid < length C" and "NUM_NODES D \<le> length (C ! nid)"
    and "valid_run D (snd (init D nid C)) evs"
  shows "well_formed D (run D evs (snd (init D nid C)))"
proof -
  obtain u where "init D nid C = (None, u)" "well_formed D u"
    using init_result[OF assms(1-3)] by blast
  then show ?thesis using run_well_formed[of D u evs] assms(4) by simp
qed

section \<open>The claims\<close>

subsection \<open>C1: the own row is a fixed point of relaxation\<close>

text \<open>
  C1, as stated, fails after construction. Node 0 of two nodes is built with link cost 1
  to node 1: \<open>table[0][1]\<close> is 1 and \<open>predecessors[1]\<close> is 1, but row 1 is still
  all-infinite, so \<open>link_cost(1) + table[1][1]\<close> is \<open>inf\<close>, not 1. The predecessor does
  not achieve the minimum (node 0 itself does).
\<close>

theorem construction_predecessor_does_not_achieve:
  "fst (init two_nodes 0 pair_costs) = None
   \<and> own_row pair_node ! 1 = Fin 1 \<and> predecessors pair_node ! 1 = Some 1
   \<and> via pair_node 1 1 = Inf
   \<and> \<not> predecessors_achieve two_nodes pair_node"
  by code_simp

text \<open>
  C1, amended. After construction with \<open>linkCosts[id] = 0\<close>, every \<open>table[id][d]\<close> with
  \<open>d \<noteq> id\<close> is the minimum over all \<open>v\<close> of \<open>link_cost(v) + table[v][d]\<close>. After
  \<open>link_cost_change_handler\<close>, and after \<open>update\<close> with a vector of at least \<open>N\<close> entries
  that differs from the stored row, both run from a well-formed state with
  \<open>link_cost(id) \<ge> 0\<close>, the call returns, \<open>table[id][d]\<close> is that minimum in the resulting
  table, and where it is finite \<open>predecessors[d]\<close> is a node \<open>p\<close> with
  \<open>link_cost(p) + table[p][d] = table[id][d]\<close>.
\<close>

theorem own_row_is_fixed_point:
  "(nid < NUM_NODES D \<and> nid < length C \<and> NUM_NODES D \<le> length (C ! nid)
      \<and> C ! nid ! nid = Fin 0 \<longrightarrow>
      (\<exists>u. init D nid C = (None, u) \<and> fixed_point D u))
   \<and> (well_formed D s \<and> Fin 0 \<le> link_cost s (nodeid s) \<longrightarrow>
      (\<exists>u. link_cost_change_handler D w c s = (None, u)
            \<and> fixed_point D u \<and> predecessors_achieve D u)
      \<and> (\<forall>k. py_index (NUM_NODES D) (src pkt) = Inr k
              \<and> NUM_NODES D \<le> length (heap s (dist_vector pkt))
              \<and> row s k \<noteq> heap s (dist_vector pkt) \<longrightarrow>
            (\<exists>u. update D pkt s = (None, u)
                  \<and> fixed_point D u \<and> predecessors_achieve D u)))"
proof (intro conjI impI allI)
  assume a: "nid < NUM_NODES D \<and> nid < length C \<and> NUM_NODES D \<le> length (C ! nid)
      \<and> C ! nid ! nid = Fin 0"
  then obtain u where u: "init D nid C = (None, u)" "nodeid u = nid"
      "\<forall>v<NUM_NODES D. v \<noteq> nid \<longrightarrow> row u v = replicate (NUM_NODES D) Inf"
      "own_row u = C ! nid" "simulator_cost u = C"
    using init_result[of nid D C] by blast
  have "fixed_point D u"
    using fixed_point_seeded[of nid D C u] a u by simp
  then show "\<exists>u. init D nid C = (None, u) \<and> fixed_point D u" using u(1) by blast
next
  assume a: "well_formed D s \<and> Fin 0 \<le> link_cost s (nodeid s)"
  then show "\<exists>u. link_cost_change_handler D w c s = (None, u)
            \<and> fixed_point D u \<and> predecessors_achieve D u"
    using update_helper_invariants[of D s] by (auto simp: link_cost_change_handler_def)
next
  fix k
  assume a: "well_formed D s \<and> Fin 0 \<le> link_cost s (nodeid s)"
    and b: "py_index (NUM_NODES D) (src pkt) = Inr k
              \<and> NUM_NODES D \<le> length (heap s (dist_vector pkt))
              \<and> row s k \<noteq> heap s (dist_vector pkt)"
  have len: "length (dist_table s) = NUM_NODES D" using a by (simp add: well_formed_def)
  have k: "k < NUM_NODES D" using b py_index_bound by blast
  let ?t = "stored s k (dist_vector pkt)"
  have run: "update D pkt s = update_helper D ?t"
    using b by (simp add: update_cases len row_def)
  have "well_formed D ?t" using stored_wf[OF _ k] a b by simp
  moreover have "Fin 0 \<le> link_cost ?t (nodeid ?t)" using a by simp
  ultimately show "\<exists>u. update D pkt s = (None, u)
                  \<and> fixed_point D u \<and> predecessors_achieve D u"
    using update_helper_invariants[of D ?t] run by auto
qed

theorem own_row_is_fixed_point_witness:
  "0 < NUM_NODES three_nodes \<and> 0 < length triangle_costs
   \<and> NUM_NODES three_nodes \<le> length (triangle_costs ! 0) \<and> triangle_costs ! 0 ! 0 = Fin 0
   \<and> (\<exists>u. init three_nodes 0 triangle_costs = (None, u) \<and> fixed_point three_nodes u)
   \<and> well_formed three_nodes heard_one \<and> Fin 0 \<le> link_cost heard_one (nodeid heard_one)
   \<and> (\<exists>u. link_cost_change_handler three_nodes 2 (Fin 5) heard_one = (None, u)
         \<and> fixed_point three_nodes u \<and> predecessors_achieve three_nodes u)
   \<and> own_row (snd (link_cost_change_handler three_nodes 2 (Fin 5) heard_one))
       = [Fin 0, Fin 1, Fin 2]
   \<and> predecessors (snd (link_cost_change_handler three_nodes 2 (Fin 5) heard_one))
       = [None, Some 1, Some 1]
   \<and> py_index (NUM_NODES three_nodes) (src from_two) = Inr 2
   \<and> NUM_NODES three_nodes \<le> length (heap heard_one (dist_vector from_two))
   \<and> row heard_one 2 \<noteq> heap heard_one (dist_vector from_two)
   \<and> (\<exists>u. update three_nodes from_two heard_one = (None, u)
         \<and> fixed_point three_nodes u \<and> predecessors_achieve three_nodes u)
   \<and> own_row (snd (update three_nodes from_two heard_one)) = [Fin 0, Fin 1, Fin 2]
   \<and> row (snd (update three_nodes from_two heard_one)) 2 = [Fin 5, Fin 1, Fin 0]
   \<and> predecessors (snd (update three_nodes from_two heard_one)) = [None, Some 1, Some 1]"
proof -
  have h1: "0 < NUM_NODES three_nodes \<and> 0 < length triangle_costs
      \<and> NUM_NODES three_nodes \<le> length (triangle_costs ! 0) \<and> triangle_costs ! 0 ! 0 = Fin 0"
    by code_simp
  have h2: "well_formed three_nodes heard_one \<and> Fin 0 \<le> link_cost heard_one (nodeid heard_one)"
    by code_simp
  have h3: "py_index (NUM_NODES three_nodes) (src from_two) = Inr 2
      \<and> NUM_NODES three_nodes \<le> length (heap heard_one (dist_vector from_two))
      \<and> row heard_one 2 \<noteq> heap heard_one (dist_vector from_two)"
    by code_simp
  have v1: "own_row (snd (link_cost_change_handler three_nodes 2 (Fin 5) heard_one))
       = [Fin 0, Fin 1, Fin 2]"
    "predecessors (snd (link_cost_change_handler three_nodes 2 (Fin 5) heard_one))
       = [None, Some 1, Some 1]"
    by code_simp+
  have v2: "own_row (snd (update three_nodes from_two heard_one)) = [Fin 0, Fin 1, Fin 2]"
    "row (snd (update three_nodes from_two heard_one)) 2 = [Fin 5, Fin 1, Fin 0]"
    "predecessors (snd (update three_nodes from_two heard_one)) = [None, Some 1, Some 1]"
    by code_simp+
  show ?thesis
    using h1 h2 h3 v1 v2
      own_row_is_fixed_point
        [of 0 three_nodes triangle_costs heard_one 2 "Fin 5" from_two]
    by blast
qed

subsection \<open>C2: the state after construction\<close>

text \<open>
  C2: for a node id below \<open>N\<close> and a cost matrix with a row of at least \<open>N\<close> costs for it,
  \<open>__init__\<close> returns, every row but the node's own is \<open>N\<close> times \<open>inf\<close>, the own row is
  the row of link costs, \<open>predecessors[j]\<close> is \<open>j\<close> for each \<open>j \<noteq> id\<close> with a finite link
  cost and \<open>None\<close> otherwise, and the packets sent are exactly one \<open>(id, j, own row)\<close> for
  each such \<open>j\<close>, in increasing order of \<open>j\<close>.
\<close>

theorem construction_state:
  assumes "nid < NUM_NODES D" and "nid < length C" and "NUM_NODES D \<le> length (C ! nid)"
  shows "\<exists>u. init D nid C = (None, u)
           \<and> nodeid u = nid
           \<and> length (dist_table u) = NUM_NODES D
           \<and> (\<forall>v<NUM_NODES D. v \<noteq> nid \<longrightarrow> row u v = replicate (NUM_NODES D) Inf)
           \<and> own_row u = C ! nid
           \<and> length (predecessors u) = NUM_NODES D
           \<and> (\<forall>j<NUM_NODES D. predecessors u ! j =
                  (if j \<noteq> nid \<and> C ! nid ! j \<noteq> Inf then Some j else None))
           \<and> map (carried u) (link_layer u) =
               map (\<lambda>j. (int nid, int j, C ! nid))
                   (filter (\<lambda>j. j \<noteq> nid \<and> C ! nid ! j \<noteq> Inf) [0..<NUM_NODES D])"
proof -
  let ?s = "seeded D nid C"
  obtain u where u: "init D nid C = (None, u)"
      "sent_so_far D ?s (neighbours D ?s) u"
      "nodeid u = nid" "dist_table u = [0..<NUM_NODES D][nid := NUM_NODES D]"
      "\<forall>v<NUM_NODES D. v \<noteq> nid \<longrightarrow> row u v = replicate (NUM_NODES D) Inf"
      "own_row u = C ! nid" "length (predecessors u) = NUM_NODES D"
      "\<forall>j<NUM_NODES D. predecessors u ! j =
                  (if j \<noteq> nid \<and> C ! nid ! j \<noteq> Inf then Some j else None)"
    using init_result[OF assms] by blast
  have nb: "neighbour ?s j \<longleftrightarrow> j \<noteq> nid \<and> C ! nid ! j \<noteq> Inf" for j
    by (simp add: neighbour_def)
  obtain ps where ps: "link_layer u = link_layer ?s @ ps"
      "map (carried u) ps = map (\<lambda>j. (int (nodeid ?s), int j, own_row ?s)) (neighbours D ?s)"
    using u(2) unfolding sent_so_far_def by blast
  have "map (carried u) (link_layer u) =
               map (\<lambda>j. (int nid, int j, C ! nid))
                   (filter (\<lambda>j. j \<noteq> nid \<and> C ! nid ! j \<noteq> Inf) [0..<NUM_NODES D])"
    using ps by (simp add: neighbours_def nb seeded_rows(2)[OF assms(1)] cong: filter_cong)
  then show ?thesis using u by simp
qed

theorem construction_state_witness:
  "0 < NUM_NODES three_nodes \<and> 0 < length line_costs
   \<and> NUM_NODES three_nodes \<le> length (line_costs ! 0)
   \<and> fst (init three_nodes 0 line_costs) = None
   \<and> row (snd (init three_nodes 0 line_costs)) 1 = [Inf, Inf, Inf]
   \<and> row (snd (init three_nodes 0 line_costs)) 2 = [Inf, Inf, Inf]
   \<and> own_row (snd (init three_nodes 0 line_costs)) = [Fin 0, Fin 1, Inf]
   \<and> predecessors (snd (init three_nodes 0 line_costs)) ! 1 = Some 1
   \<and> predecessors (snd (init three_nodes 0 line_costs)) ! 2 = None
   \<and> map (carried (snd (init three_nodes 0 line_costs)))
         (link_layer (snd (init three_nodes 0 line_costs)))
       = [(0, 1, [Fin 0, Fin 1, Inf])]"
proof -
  have h: "0 < NUM_NODES three_nodes" "0 < length line_costs"
    "NUM_NODES three_nodes \<le> length (line_costs ! 0)"
    by code_simp+
  obtain u where u: "init three_nodes 0 line_costs = (None, u)"
      "\<forall>v<NUM_NODES three_nodes. v \<noteq> 0 \<longrightarrow>
         row u v = replicate (NUM_NODES three_nodes) Inf"
      "own_row u = line_costs ! 0"
      "\<forall>j<NUM_NODES three_nodes. predecessors u ! j =
                  (if j \<noteq> 0 \<and> line_costs ! 0 ! j \<noteq> Inf then Some j else None)"
      "map (carried u) (link_layer u) =
               map (\<lambda>j. (int 0, int j, line_costs ! 0))
                   (filter (\<lambda>j. j \<noteq> 0 \<and> line_costs ! 0 ! j \<noteq> Inf)
                      [0..<NUM_NODES three_nodes])"
    using construction_state[OF h] by blast
  have n: "NUM_NODES three_nodes = 3" by code_simp
  have c: "line_costs ! 0 = [Fin 0, Fin 1, Inf]" by code_simp
  have r: "row u 1 = [Inf, Inf, Inf]" "row u 2 = [Inf, Inf, Inf]"
    using u(2) by (simp_all add: n numeral_3_eq_3)
  have p: "predecessors u ! 1 = Some 1" "predecessors u ! 2 = None"
    using u(4) by (simp_all add: n c)
  have s: "map (carried u) (link_layer u) = [(0, 1, [Fin 0, Fin 1, Inf])]"
    unfolding u(5) n c by (simp add: upt_rec)
  show ?thesis
    using h u(1,3) c r p s by simp
qed

subsection \<open>C3: when and what \<open>update_helper\<close> sends\<close>

text \<open>
  C3: from a well-formed state \<open>update_helper\<close> returns. If the own row it leaves differs
  from the own row it found, the packets it sends are exactly one \<open>(id, j, new own row)\<close>
  for each \<open>j \<noteq> id\<close> with a finite link cost, in increasing order of \<open>j\<close> (none if there
  is no such \<open>j\<close>). If the own row is the same, it sends nothing, and the state differs
  from the one it found in the predecessors at most.
\<close>

theorem recompute_broadcast:
  assumes "well_formed D s"
  shows "\<exists>u new. update_helper D s = (None, u)
           \<and> link_layer u = link_layer s @ new
           \<and> map (carried u) new =
               (if own_row u = own_row s then []
                else map (\<lambda>j. (int (nodeid s), int j, own_row u)) (neighbours D s))
           \<and> (own_row u = own_row s \<longrightarrow> u = s\<lparr>predecessors := predecessors u\<rparr>)"
proof -
  obtain t u where t: "settled D s (NUM_NODES D) t" and u: "update_helper D s = (None, u)"
    and c: "if own_row t = own_row s then u = t
            else sent_so_far D t (neighbours D t) u \<and> predecessors u = predecessors t"
    using update_helper_result[OF assms] by blast
  have wft: "well_formed D t" by (rule settled_wf[OF assms t])
  show ?thesis
  proof (cases "own_row t = own_row s")
    case True
    then have "u = t" using c by simp
    then show ?thesis
      using u True state_only_predecessors[OF t True] settled_same(5)[OF t] by auto
  next
    case False
    then have sent: "sent_so_far D t (neighbours D t) u" using c by simp
    have row: "own_row u = own_row t" by (rule sent_so_far_own_row(1)[OF wft sent])
    obtain ps where ps: "link_layer u = link_layer t @ ps"
        "map (carried u) ps = map (\<lambda>j. (int (nodeid t), int j, own_row t)) (neighbours D t)"
      using sent unfolding sent_so_far_def by blast
    show ?thesis
      using u ps False row
      by (simp add: settled_same[OF t] settled_neighbours[OF t])
  qed
qed

theorem recompute_broadcast_witness:
  "well_formed three_nodes heard_one
   \<and> (\<exists>u new. update_helper three_nodes heard_one = (None, u)
         \<and> link_layer u = link_layer heard_one @ new
         \<and> map (carried u) new =
             (if own_row u = own_row heard_one then []
              else map (\<lambda>j. (int (nodeid heard_one), int j, own_row u))
                     (neighbours three_nodes heard_one))
         \<and> (own_row u = own_row heard_one \<longrightarrow> u = heard_one\<lparr>predecessors := predecessors u\<rparr>))
   \<and> own_row heard_one = [Fin 0, Fin 1, Fin 5] \<and> own_row idle = [Fin 0, Fin 1, Fin 2]
   \<and> map (carried idle) (link_layer idle)
       = [(0, 1, [Fin 0, Fin 1, Fin 2]), (0, 2, [Fin 0, Fin 1, Fin 2])]
   \<and> well_formed three_nodes idle
   \<and> (\<exists>u new. update_helper three_nodes idle = (None, u)
         \<and> link_layer u = link_layer idle @ new
         \<and> map (carried u) new =
             (if own_row u = own_row idle then []
              else map (\<lambda>j. (int (nodeid idle), int j, own_row u)) (neighbours three_nodes idle))
         \<and> (own_row u = own_row idle \<longrightarrow> u = idle\<lparr>predecessors := predecessors u\<rparr>))
   \<and> own_row (snd (update_helper three_nodes idle)) = own_row idle
   \<and> link_layer (snd (update_helper three_nodes idle)) = link_layer idle"
proof -
  have h: "well_formed three_nodes heard_one"
    by code_simp
  have h': "well_formed three_nodes idle"
    by code_simp
  have v: "own_row heard_one = [Fin 0, Fin 1, Fin 5]" "own_row idle = [Fin 0, Fin 1, Fin 2]"
    "map (carried idle) (link_layer idle)
       = [(0, 1, [Fin 0, Fin 1, Fin 2]), (0, 2, [Fin 0, Fin 1, Fin 2])]"
    "own_row (snd (update_helper three_nodes idle)) = own_row idle"
    "link_layer (snd (update_helper three_nodes idle)) = link_layer idle"
    by code_simp+
  show ?thesis
    using h h' v recompute_broadcast[OF h] recompute_broadcast[OF h']
    by simp
qed

subsection \<open>C4: an advertisement that brings nothing new\<close>

text \<open>
  C4: in any state, \<open>update\<close> with a packet whose vector equals the row stored for its
  source returns and leaves the state as it is: table, predecessors and sent packets.
  And delivering a packet a second time changes nothing, whatever the first delivery
  did, when the source is not the node itself, the rows of the table are allocated
  objects, and the packet's list is an allocated object that is not a row of the table.
\<close>

theorem redundant_advertisement_is_noop:
  "(py_index (length (dist_table s)) (src pkt) = Inr k
      \<and> heap s (dist_table s ! k) = heap s (dist_vector pkt) \<longrightarrow>
      update D pkt s = (None, s))
   \<and> (py_index (length (dist_table s)) (src pkt) \<noteq> Inr (nodeid s)
      \<and> (\<forall>a\<in>set (dist_table s). a < next_addr s)
      \<and> dist_vector pkt < next_addr s \<and> dist_vector pkt \<notin> set (dist_table s) \<longrightarrow>
      snd (update D pkt (snd (update D pkt s))) = snd (update D pkt s))"
proof (intro conjI impI)
  assume "py_index (length (dist_table s)) (src pkt) = Inr k
      \<and> heap s (dist_table s ! k) = heap s (dist_vector pkt)"
  then show "update D pkt s = (None, s)" by (simp add: update_cases)
next
  assume a: "py_index (length (dist_table s)) (src pkt) \<noteq> Inr (nodeid s)
      \<and> (\<forall>a\<in>set (dist_table s). a < next_addr s)
      \<and> dist_vector pkt < next_addr s \<and> dist_vector pkt \<notin> set (dist_table s)"
  let ?v = "dist_vector pkt"
  show "snd (update D pkt (snd (update D pkt s))) = snd (update D pkt s)"
  proof (cases "py_index (length (dist_table s)) (src pkt)")
    case (Inl e)
    then show ?thesis by (simp add: update_cases)
  next
    case (Inr k)
    have k: "k \<noteq> nodeid s" "k < length (dist_table s)"
      using a Inr py_index_bound by auto
    show ?thesis
    proof (cases "heap s (dist_table s ! k) = heap s ?v")
      case True
      then show ?thesis using Inr by (simp add: update_cases)
    next
      case False
      let ?t = "stored s k ?v"
      obtain e u where u: "update_helper D ?t = (e, u)" by (cases "update_helper D ?t")
      have first: "snd (update D pkt s) = u" using Inr False u by (simp add: update_cases)
      have fr: "framed D ?t u" by (rule update_helper_framed[OF u])
      have tbl: "dist_table u = (dist_table s)[k := next_addr s]"
        using fr by (simp add: framed_def)
      have not_own: "\<not> is_own ?t b" if "b = next_addr s \<or> b = ?v" for b
      proof
        assume "is_own ?t b"
        then have "nodeid s < length (dist_table s)" "b = dist_table s ! nodeid s"
          using k by (auto simp: is_own_def)
        then have "b \<in> set (dist_table s)" by simp
        then show False using that a by auto
      qed
      have "heap u (next_addr s) = heap ?t (next_addr s)"
        using fr not_own[of "next_addr s"] by (simp add: framed_def)
      moreover have "heap u ?v = heap ?t ?v"
        using fr not_own[of ?v] a by (simp add: framed_def)
      ultimately have "heap u (dist_table u ! k) = heap u ?v"
        using k a by (simp add: tbl)
      moreover have "py_index (length (dist_table u)) (src pkt) = Inr k"
        using Inr by (simp add: tbl)
      ultimately have "update D pkt u = (None, u)" by (simp add: update_cases)
      then show ?thesis by (simp add: first)
    qed
  qed
qed

theorem redundant_advertisement_is_noop_witness:
  "py_index (length (dist_table silent)) (src old_news) = Inr 1
   \<and> heap silent (dist_table silent ! 1) = heap silent (dist_vector old_news)
   \<and> update three_nodes old_news silent = (None, silent)
   \<and> py_index (length (dist_table silent)) (src new_news) \<noteq> Inr (nodeid silent)
   \<and> dist_table silent = [0, 1, 2] \<and> next_addr silent = 5
   \<and> dist_vector new_news = 3
   \<and> heap silent (dist_table silent ! 1) \<noteq> heap silent (dist_vector new_news)
   \<and> snd (update three_nodes new_news (snd (update three_nodes new_news silent)))
       = snd (update three_nodes new_news silent)
   \<and> length (link_layer (snd (update three_nodes new_news silent))) = 2"
proof -
  have h1: "py_index (length (dist_table silent)) (src old_news) = Inr 1
      \<and> heap silent (dist_table silent ! 1) = heap silent (dist_vector old_news)"
    by code_simp
  have h2: "py_index (length (dist_table silent)) (src new_news) \<noteq> Inr (nodeid silent)"
    "dist_table silent = [0, 1, 2]" "next_addr silent = 5" "dist_vector new_news = 3"
    "heap silent (dist_table silent ! 1) \<noteq> heap silent (dist_vector new_news)"
    by code_simp+
  have h3: "(\<forall>a\<in>set (dist_table silent). a < next_addr silent)
      \<and> dist_vector new_news < next_addr silent
      \<and> dist_vector new_news \<notin> set (dist_table silent)"
    by (simp add: h2)
  have v: "length (link_layer (snd (update three_nodes new_news silent))) = 2"
    by code_simp
  show ?thesis
    using h1 h2 h3 v
      redundant_advertisement_is_noop[of silent old_news 1 three_nodes]
      redundant_advertisement_is_noop[of silent new_news 1 three_nodes]
    by blast
qed

subsection \<open>C5: the distance to itself\<close>

text \<open>
  C5: a node constructed with \<open>linkCosts[id] = 0\<close> has \<open>get_dist_vector()[id] = 0\<close> after
  construction and after any sequence of events in which no advertisement has the node
  itself as its source, also after calls that raised.
\<close>

theorem self_distance_stays_zero:
  assumes "nid < NUM_NODES D" and "nid < length C" and "NUM_NODES D \<le> length (C ! nid)"
    and "C ! nid ! nid = Fin 0"
    and "\<forall>ev\<in>set evs. from_other D nid ev"
  shows "fst (init D nid C) = None
         \<and> own_entry (run D evs (snd (init D nid C))) nid = Inr (Fin 0)"
proof -
  obtain u where u: "init D nid C = (None, u)" "well_formed D u" "nodeid u = nid"
      "own_row u = C ! nid"
    using init_result[OF assms(1-3)] by blast
  have "self_zero D u"
    using u assms(1,3,4) wf_own_addr[OF u(2)]
    by (simp add: self_zero_def well_formed_def own_row_def row_def own_addr_def)
  then have z: "self_zero D (run D evs u)" "nodeid (run D evs u) = nid"
    using run_self_zero[of D u evs] assms(5) u(3) by simp_all
  have "own_entry (run D evs u) nid = Inr (Fin 0)"
    using z by (simp add: self_zero_def own_entry_def get_dist_vector_def list_get_def
                  own_addr_def)
  then show ?thesis using u(1) by simp
qed

theorem self_distance_stays_zero_witness:
  "0 < NUM_NODES three_nodes \<and> 0 < length triangle_costs
   \<and> NUM_NODES three_nodes \<le> length (triangle_costs ! 0) \<and> triangle_costs ! 0 ! 0 = Fin 0
   \<and> list_all (from_other three_nodes 0) a_run
   \<and> fst (init three_nodes 0 triangle_costs) = None
   \<and> own_entry (run three_nodes a_run (snd (init three_nodes 0 triangle_costs))) 0
       = Inr (Fin 0)"
proof -
  have h: "0 < NUM_NODES three_nodes" "0 < length triangle_costs"
    "NUM_NODES three_nodes \<le> length (triangle_costs ! 0)" "triangle_costs ! 0 ! 0 = Fin 0"
    by code_simp+
  have l: "list_all (from_other three_nodes 0) a_run"
    by code_simp
  then have a: "\<forall>ev\<in>set a_run. from_other three_nodes 0 ev"
    by (simp add: list_all_iff)
  show ?thesis
    using h l self_distance_stays_zero[OF h a]
    by simp
qed

subsection \<open>C6: determinism and the tie-break\<close>

text \<open>
  C6: from a well-formed state with \<open>link_cost(id) \<ge> 0\<close>, \<open>update_helper\<close> returns a
  state in which, for every destination \<open>d \<noteq> id\<close> whose minimum is finite,
  \<open>predecessors[d]\<close> is the lowest-numbered node other than \<open>id\<close> whose sum
  \<open>link_cost(v) + table[v][d]\<close> is the minimum: every other node before it has a
  strictly larger sum. And the result is a function of the state: a run from an equal
  state gives the same table, predecessors and packets.
\<close>

theorem recompute_first_best:
  assumes "well_formed D s" and "Fin 0 \<le> link_cost s (nodeid s)"
  shows "\<exists>u. update_helper D s = (None, u) \<and> first_best D u
           \<and> (\<forall>s'. s' = s \<longrightarrow> update_helper D s' = (None, u))"
  using update_helper_invariants[OF assms] by auto

theorem recompute_first_best_witness:
  "well_formed three_nodes tied \<and> Fin 0 \<le> link_cost tied (nodeid tied)
   \<and> (\<exists>u. update_helper three_nodes tied = (None, u) \<and> first_best three_nodes u
         \<and> (\<forall>s'. s' = tied \<longrightarrow> update_helper three_nodes s' = (None, u)))
   \<and> via (snd (update_helper three_nodes tied)) 1 2 = Fin 2
   \<and> via (snd (update_helper three_nodes tied)) 2 2 = Fin 2
   \<and> best three_nodes (snd (update_helper three_nodes tied)) 2 = Fin 2
   \<and> predecessors (snd (update_helper three_nodes tied)) ! 2 = Some 1"
proof -
  have h: "well_formed three_nodes tied" "Fin 0 \<le> link_cost tied (nodeid tied)"
    by code_simp+
  have v: "via (snd (update_helper three_nodes tied)) 1 2 = Fin 2"
    "via (snd (update_helper three_nodes tied)) 2 2 = Fin 2"
    "best three_nodes (snd (update_helper three_nodes tied)) 2 = Fin 2"
    "predecessors (snd (update_helper three_nodes tied)) ! 2 = Some 1"
    by code_simp+
  show ?thesis
    using h v recompute_first_best[OF h]
    by simp
qed

subsection \<open>C7: the predecessor of an unreachable destination\<close>

text \<open>
  C7 fails on the code. Node 0 of two nodes is built with link cost 1 to node 1, so
  \<open>get_predecessor(1)\<close> is 1. The link then goes down (cost \<open>inf\<close>) and
  \<open>link_cost_change_handler\<close> runs: the distance to node 1 becomes \<open>inf\<close>, and
  \<open>get_predecessor(1)\<close> still returns 1, not \<open>None\<close>.
\<close>

theorem stale_predecessor_after_link_failure:
  "get_predecessor pair_node 1 = Inr (Some 1)
   \<and> fst link_down = None
   \<and> own_entry (snd link_down) 1 = Inr Inf
   \<and> get_predecessor (snd link_down) 1 = Inr (Some 1)"
  by code_simp

subsection \<open>C8: malformed advertisements\<close>

text \<open>
  C8, as stated, fails: \<open>update\<close> validates nothing. With \<open>NUM_NODES = 2\<close>, an
  advertisement from source 1 whose vector has three entries returns normally and its
  vector becomes row 1 of the table; the same happens for the source \<open>-1\<close>, which
  Python's indexing takes as row 1. A vector of one entry does end in an \<open>IndexError\<close>,
  raised in the middle of \<open>update_helper\<close>: by then the vector is row 1 of the table and
  the own row has been partly recomputed.
\<close>

theorem malformed_vector_is_stored:
  "heap with_lists 4 = [Fin 1, Fin 0, Fin 9] \<and> heap with_lists 5 = [Fin 1]
   \<and> table with_lists = [[Fin 0, Fin 1], [Inf, Inf]]
   \<and> fst too_long = None
   \<and> table (snd too_long) = [[Fin 0, Fin 1], [Fin 1, Fin 0, Fin 9]]
   \<and> fst wrapped = None
   \<and> table (snd wrapped) = [[Fin 0, Fin 1], [Fin 1, Fin 0, Fin 9]]
   \<and> fst too_short = Some IndexError
   \<and> table (snd too_short) = [[Fin 0, Inf], [Fin 1]]"
  by code_simp

text \<open>
  C8, amended: an advertisement whose source is not an index Python accepts for the
  table (\<open>src \<ge> N\<close> or \<open>src < -N\<close>) makes \<open>update\<close> raise \<open>IndexError\<close> at the
  comparison of line 81, before anything is written: the whole state is as before. Any
  other advertisement whose vector differs from the stored row has its vector stored as
  the row of its source (row \<open>N + src\<close> for a negative source), whatever the length of
  the vector and whether or not the recomputation that follows raises (shown here for a
  source other than the node itself, in a state whose rows are allocated objects).
\<close>

theorem update_checks_only_the_source:
  "(int (length (dist_table s)) \<le> src pkt \<or> src pkt < - int (length (dist_table s)) \<longrightarrow>
      update D pkt s = (Some IndexError, s))
   \<and> (py_index (length (dist_table s)) (src pkt) = Inr k \<and> k \<noteq> nodeid s
       \<and> (\<forall>a\<in>set (dist_table s). a < next_addr s)
       \<and> row s k \<noteq> heap s (dist_vector pkt) \<longrightarrow>
      row (snd (update D pkt s)) k = heap s (dist_vector pkt))"
proof (intro conjI impI)
  assume "int (length (dist_table s)) \<le> src pkt \<or> src pkt < - int (length (dist_table s))"
  then show "update D pkt s = (Some IndexError, s)"
    by (auto simp: update_def py_index_def with_value_def Let_def)
next
  assume a: "py_index (length (dist_table s)) (src pkt) = Inr k \<and> k \<noteq> nodeid s
       \<and> (\<forall>a\<in>set (dist_table s). a < next_addr s)
       \<and> row s k \<noteq> heap s (dist_vector pkt)"
  let ?t = "stored s k (dist_vector pkt)"
  obtain e u where u: "update_helper D ?t = (e, u)" by (cases "update_helper D ?t")
  have k: "k < length (dist_table s)" using a py_index_bound by blast
  have run: "snd (update D pkt s) = u" using a u by (simp add: update_cases row_def)
  have fr: "framed D ?t u" by (rule update_helper_framed[OF u])
  have "\<not> is_own ?t (next_addr s)"
  proof
    assume "is_own ?t (next_addr s)"
    then have "nodeid s < length (dist_table s)" "next_addr s = dist_table s ! nodeid s"
      using a by (auto simp: is_own_def)
    then have "next_addr s \<in> set (dist_table s)" by simp
    then show False using a by auto
  qed
  then have "heap u (next_addr s) = heap ?t (next_addr s)"
    using fr by (simp add: framed_def)
  moreover have "dist_table u ! k = next_addr s"
    using fr k by (simp add: framed_def)
  ultimately show "row (snd (update D pkt s)) k = heap s (dist_vector pkt)"
    by (simp add: run row_def)
qed

theorem update_checks_only_the_source_witness:
  "int (length (dist_table with_lists)) \<le> src nobody
   \<and> update two_nodes nobody with_lists = (Some IndexError, with_lists)
   \<and> py_index (length (dist_table with_lists)) 1 = Inr 1 \<and> 1 \<noteq> nodeid with_lists
   \<and> dist_table with_lists = [2, 1] \<and> next_addr with_lists = 6
   \<and> row with_lists 1 \<noteq> heap with_lists 4
   \<and> row (snd too_long) 1 = heap with_lists 4
   \<and> heap with_lists 4 = [Fin 1, Fin 0, Fin 9]"
proof -
  have h1: "int (length (dist_table with_lists)) \<le> src nobody"
    by code_simp
  have h2: "py_index (length (dist_table with_lists)) 1 = Inr 1" "1 \<noteq> nodeid with_lists"
    "dist_table with_lists = [2, 1]" "next_addr with_lists = 6"
    "row with_lists 1 \<noteq> heap with_lists 4" "heap with_lists 4 = [Fin 1, Fin 0, Fin 9]"
    by code_simp+
  have al: "\<forall>a\<in>set (dist_table with_lists). a < next_addr with_lists"
    by (simp add: h2)
  show ?thesis
    using h1 h2 al
      update_checks_only_the_source [of with_lists nobody two_nodes 1]
      update_checks_only_the_source
        [of with_lists "\<lparr>src = 1, dest = 0, dist_vector = 4\<rparr>" two_nodes 1]
    by (simp add: too_long_def)
qed

subsection \<open>C9: sent vectors are snapshots\<close>

text \<open>
  C9, for a \<open>Packet\<close> that stores a copy of the list it is handed: the packets sent at
  construction carry the own row as it is when \<open>__init__\<close> returns; the packets sent by
  any later call carry the own row as it is when that call ends; and whatever happens
  afterwards, every packet sent so far is still there and carries the same vector.
\<close>

theorem sent_vectors_are_snapshots:
  assumes "packet_copies D"
    and "nid < NUM_NODES D" and "nid < length C" and "NUM_NODES D \<le> length (C ! nid)"
  shows "let s0 = snd (init D nid C);
             s = run D evs s0;
             s1 = handle D ev s;
             s2 = run D evs' s
         in fst (init D nid C) = None
            \<and> (\<forall>p\<in>set (link_layer s0). heap s0 (dist_vector p) = own_row s0)
            \<and> (\<exists>new. link_layer s1 = link_layer s @ new
                  \<and> (\<forall>p\<in>set new. heap s1 (dist_vector p) = own_row s1))
            \<and> (\<exists>later. link_layer s2 = link_layer s @ later)
            \<and> (\<forall>p\<in>set (link_layer s). heap s2 (dist_vector p) = heap s (dist_vector p))"
proof -
  obtain u where u: "init D nid C = (None, u)"
    using init_result[OF assms(2-4)] by blast
  have pu: "packets_private u"
    and su: "\<forall>p\<in>set (link_layer u). heap u (dist_vector p) = own_row u"
    using init_private[OF assms(2-4) assms(1) u] by simp_all
  have ps: "packets_private (run D evs u)"
    using run_frozen[OF assms(1) pu] by simp
  show ?thesis
    using u su handle_snapshot[OF ps, of D ev] run_frozen[OF assms(1) ps, of evs']
    by (simp add: Let_def)
qed

theorem sent_vectors_are_snapshots_witness:
  "packet_copies three_nodes \<and> 0 < NUM_NODES three_nodes \<and> 0 < length triangle_costs
   \<and> NUM_NODES three_nodes \<le> length (triangle_costs ! 0)
   \<and> fst (init three_nodes 0 triangle_costs) = None
   \<and> list_all (\<lambda>p. heap born (dist_vector p) = own_row born) (link_layer born)
   \<and> (\<exists>new. link_layer (handle three_nodes hears_one (run three_nodes [New_list [Fin 1, Fin 0, Fin 1]] born))
               = link_layer (run three_nodes [New_list [Fin 1, Fin 0, Fin 1]] born) @ new
         \<and> list_all (\<lambda>p. heap (handle three_nodes hears_one
                                    (run three_nodes [New_list [Fin 1, Fin 0, Fin 1]] born))
                                (dist_vector p)
                            = own_row (handle three_nodes hears_one
                                    (run three_nodes [New_list [Fin 1, Fin 0, Fin 1]] born))) new)
   \<and> (\<exists>later. link_layer (run three_nodes a_run born) = link_layer born @ later)
   \<and> list_all (\<lambda>p. heap (run three_nodes a_run born) (dist_vector p)
                      = heap born (dist_vector p)) (link_layer born)
   \<and> length (link_layer born) = 2"
proof -
  have h: "packet_copies three_nodes" "0 < NUM_NODES three_nodes" "0 < length triangle_costs"
    "NUM_NODES three_nodes \<le> length (triangle_costs ! 0)"
    by code_simp+
  have v: "length (link_layer born) = 2"
    by code_simp
  have e: "run three_nodes [] born = born"
    by (simp add: run_def)
  note a = sent_vectors_are_snapshots
      [OF h, of "[New_list [Fin 1, Fin 0, Fin 1]]" hears_one "[]", unfolded Let_def,
       folded born_def]
  note b = sent_vectors_are_snapshots
      [OF h, of "[]" hears_one a_run, unfolded Let_def, folded born_def, unfolded e]
  have a1: "fst (init three_nodes 0 triangle_costs) = None"
    using a by blast
  have a2: "\<forall>p\<in>set (link_layer born). heap born (dist_vector p) = own_row born"
    using a by blast
  have a3: "\<exists>new. link_layer (handle three_nodes hears_one
                 (run three_nodes [New_list [Fin 1, Fin 0, Fin 1]] born))
               = link_layer (run three_nodes [New_list [Fin 1, Fin 0, Fin 1]] born) @ new
         \<and> (\<forall>p\<in>set new. heap (handle three_nodes hears_one
                                    (run three_nodes [New_list [Fin 1, Fin 0, Fin 1]] born))
                                (dist_vector p)
                            = own_row (handle three_nodes hears_one
                                    (run three_nodes [New_list [Fin 1, Fin 0, Fin 1]] born)))"
    using a by blast
  have b1: "\<exists>later. link_layer (run three_nodes a_run born) = link_layer born @ later"
    using b by blast
  have b2: "\<forall>p\<in>set (link_layer born).
      heap (run three_nodes a_run born) (dist_vector p) = heap born (dist_vector p)"
    using b by blast
  show ?thesis
    unfolding list_all_iff
    using h v a1 a2 a3 b1 b2 by blast
qed

text \<open>
  The copy is needed: the node hands its own row object to \<open>Packet\<close>. With a \<open>Packet\<close>
  that keeps the reference, the vector of the packet sent at construction changes with
  the next recomputation.
\<close>

theorem kept_reference_is_not_a_snapshot:
  "map (carried shared_node) (link_layer shared_node) = [(0, 1, [Fin 0, Fin 1])]
   \<and> map (carried shared_later) (take 1 (link_layer shared_later)) = [(0, 1, [Fin 0, Inf])]"
  by code_simp

subsection \<open>C10: the link-cost handler and its arguments\<close>

text \<open>
  C10: \<open>link_cost_change_handler\<close> does not look at its arguments. Any two argument
  pairs give the same result from the same state, and the result is that of a full
  \<open>update_helper\<close>, whatever the new cost is.
\<close>

theorem link_cost_change_handler_ignores_arguments:
  "link_cost_change_handler D w1 c1 s = link_cost_change_handler D w2 c2 s
   \<and> link_cost_change_handler D w1 c1 s = update_helper D s"
  by (simp add: link_cost_change_handler_def)

end
